theory Spec2Isabelle
  imports Complex_Main
begin

section \<open>Spectral resampling and colour conversion (spectrum.hpp)\<close>

text \<open>
  The embedding follows \<^verbatim>\<open>src/spectral/source/spectrum.hpp\<close> function by function.

  \<^item> A C++ \<^verbatim>\<open>float\<close> is modelled by a \<^typ>\<open>real\<close>. Comparisons are the ones of the code.
    Where a computed value decides a branch, the computation is rounded as the code rounds
    it: the bin bounds of \<^verbatim>\<open>fromSamples\<close> are computed in single precision (\<open>round32\<close>
    after every operation), because \<^verbatim>\<open>averageSamples\<close> compares them with the wavelengths
    of the table. Everywhere else a computed value decides no branch, and the arithmetic of
    the model is exact: a theorem that gives such a value gives it in exact arithmetic,
    which the code follows up to rounding. Infinities and NaN are outside the model;
    decimal constants such as \<^verbatim>\<open>3.240479f\<close> stand for their decimal value.
  \<^item> A \<^verbatim>\<open>uint32_t\<close> index or count is a \<^typ>\<open>nat\<close>. The code forms \<^verbatim>\<open>i + 1\<close> only for an
    index \<^verbatim>\<open>i\<close> below a count or a table length, and \<^verbatim>\<open>count - 1\<close> only after
    \<^verbatim>\<open>count > 0\<close> has been asserted and \<^verbatim>\<open>count == 1\<close> excluded, so no 32-bit operation of
    the modelled paths wraps around.
  \<^item> An array parameter (\<^verbatim>\<open>const float wavelengths[]\<close>) is a list. Every read goes through
    \<open>rd\<close>, which fails with \<open>OutOfBounds\<close> past the end of the list, so that a read outside
    the table is a result of the model and not an unspecified value.
  \<^item> \<^verbatim>\<open>assert\<close> is modelled as in a debug build: a failed assertion ends the call with
    \<open>AssertionFailed\<close>. A division whose divisor is zero ends it with \<open>DivisionByZero\<close>
    (the C++ standard leaves it undefined).
\<close>

subsection \<open>Results, array reads, division\<close>

datatype error = AssertionFailed | OutOfBounds | DivisionByZero

definition bind_err :: "error + 'a \<Rightarrow> ('a \<Rightarrow> error + 'b) \<Rightarrow> error + 'b" where
  "bind_err m f = (case m of Inl e \<Rightarrow> Inl e | Inr x \<Rightarrow> f x)"

definition rd :: "'a list \<Rightarrow> nat \<Rightarrow> error + 'a" where
  "rd xs i = (if i < length xs then Inr (xs ! i) else Inl OutOfBounds)"

definition fdiv :: "real \<Rightarrow> real \<Rightarrow> error + real" where
  "fdiv x y = (if y = 0 then Inl DivisionByZero else Inr (x / y))"

subsection \<open>Constants and data\<close>

definition WavelengthBegin :: nat where "WavelengthBegin = 400"
definition WavelengthEnd :: nat where "WavelengthEnd = 700"
definition SpectralSampleCount :: nat where "SpectralSampleCount = 60"

text \<open>\<^verbatim>\<open>SampledSpectrumBase<SpectralSampleCount>::SampleCount\<close>.\<close>

definition SampleCount :: nat where "SampleCount = SpectralSampleCount"

text \<open>\<^verbatim>\<open>float samples[sampleCount]\<close>: a list, of length \<open>SampleCount\<close> in every spectrum
  the code builds.\<close>

type_synonym SampledSpectrum = "real list"

text \<open>The default constructor \<^verbatim>\<open>SampledSpectrumBase(float val = 0.0f)\<close>.\<close>

definition SampledSpectrumBase :: "real \<Rightarrow> SampledSpectrum" where
  "SampledSpectrumBase val = replicate SampleCount val"

text \<open>\<^verbatim>\<open>float& operator [](size_t i)\<close> used as an assignment target:
  \<^verbatim>\<open>assert(i < SampleCount); samples[i] = v\<close>.\<close>

definition set_sample :: "SampledSpectrum \<Rightarrow> nat \<Rightarrow> real \<Rightarrow> error + SampledSpectrum" where
  "set_sample s i v = (if i < SampleCount then Inr (s[i := v]) else Inl AssertionFailed)"

subsection \<open>Single-precision arithmetic\<close>

text \<open>IEEE 754 binary32, rounding to nearest with ties to even, on finite values: a
  significand of 24 bits, exponents from \<open>-126\<close> to \<open>127\<close>, gradual underflow below
  \<open>2 ^ -126\<close>. A result of magnitude \<open>2 ^ 128\<close> or more (an infinity in the code) is
  outside the model; the bounds of \<^verbatim>\<open>fromSamples\<close>, the only values rounded here, lie
  between \<open>0\<close> and \<open>700\<close>.\<close>

text \<open>The integer nearest to \<open>r\<close>, the even one of the two when \<open>r\<close> is half-way.\<close>

definition round_half_even :: "real \<Rightarrow> int" where
  "round_half_even r =
     (let f = \<lfloor>r\<rfloor>; d = r - of_int f
      in if d < 1 / 2 then f else if 1 / 2 < d then f + 1 else if even f then f else f + 1)"

text \<open>The exponent of the binade of \<open>y \<ge> 0\<close>: the \<open>e\<close> with \<open>2 ^ e \<le> y < 2 ^ (e + 1)\<close>,
  kept between \<open>-126\<close> (zero and the subnormal numbers) and \<open>127\<close>. It is found by halving
  \<open>y \<ge> 1\<close>, at most 127 times, or doubling \<open>y < 1\<close>, at most 126 times.\<close>

fun exponent_up :: "nat \<Rightarrow> real \<Rightarrow> int" where
  "exponent_up 0 y = 0"
| "exponent_up (Suc n) y = (if y < 2 then 0 else 1 + exponent_up n (y / 2))"

fun exponent_down :: "nat \<Rightarrow> real \<Rightarrow> int" where
  "exponent_down 0 y = 0"
| "exponent_down (Suc n) y = (if 1 \<le> y then 0 else exponent_down n (y * 2) - 1)"

definition float_exponent :: "real \<Rightarrow> int" where
  "float_exponent y = (if 1 \<le> y then exponent_up 127 y else exponent_down 126 y)"

definition pow2 :: "int \<Rightarrow> real" where
  "pow2 e = (if 0 \<le> e then 2 ^ nat e else 1 / 2 ^ nat (- e))"

text \<open>The distance between neighbouring single-precision numbers in the binade of \<open>x\<close>.\<close>

definition float_ulp :: "real \<Rightarrow> real" where
  "float_ulp x = pow2 (float_exponent \<bar>x\<bar> - 23)"

text \<open>The single-precision number nearest to \<open>x\<close>.\<close>

definition round32 :: "real \<Rightarrow> real" where
  "round32 x = sgn x * real_of_int (round_half_even (\<bar>x\<bar> / float_ulp x)) * float_ulp x"

text \<open>The four operations of \<^verbatim>\<open>float\<close>: the exact result, rounded. The divisor of the one
  division rounded here is the constant \<^verbatim>\<open>float(SampleCount)\<close>.\<close>

definition add32 :: "real \<Rightarrow> real \<Rightarrow> real" where "add32 x y = round32 (x + y)"
definition sub32 :: "real \<Rightarrow> real \<Rightarrow> real" where "sub32 x y = round32 (x - y)"
definition mul32 :: "real \<Rightarrow> real \<Rightarrow> real" where "mul32 x y = round32 (x * y)"
definition div32 :: "real \<Rightarrow> real \<Rightarrow> real" where "div32 x y = round32 (x / y)"

subsection \<open>averageSamples\<close>

text \<open>The cursor loop \<^verbatim>\<open>while (lBegin > wavelengths[i + 1]) ++i;\<close>. It returns the
  final \<open>i\<close>.\<close>

function advance :: "real list \<Rightarrow> real \<Rightarrow> nat \<Rightarrow> error + nat" where
  "advance wavelengths lBegin i =
     (case rd wavelengths (i + 1) of
        Inl e \<Rightarrow> Inl e
      | Inr w \<Rightarrow> if lBegin > w then advance wavelengths lBegin (i + 1) else Inr i)"
  by pat_completeness auto
termination
  by (relation "measure (\<lambda>(ws, lB, i). length ws - i)")
     (auto simp: rd_def split: if_splits)

text \<open>The lambda \<^verbatim>\<open>interpolate\<close>.\<close>

definition interpolate :: "real list \<Rightarrow> real list \<Rightarrow> real \<Rightarrow> nat \<Rightarrow> error + real" where
  "interpolate wavelengths values l i =
     bind_err (rd wavelengths i) (\<lambda>wi.
     bind_err (rd wavelengths (i + 1)) (\<lambda>wj.
     bind_err (fdiv (l - wi) (wj - wi)) (\<lambda>t.
     bind_err (rd values i) (\<lambda>vi.
     bind_err (rd values (i + 1)) (\<lambda>vj.
       Inr (vi * (1 - t) + vj * t))))))"

text \<open>The body of the segment loop: the term added to \<^verbatim>\<open>result\<close> for segment \<open>i\<close>.\<close>

definition segment_term :: "real list \<Rightarrow> real list \<Rightarrow> real \<Rightarrow> real \<Rightarrow> nat \<Rightarrow> error + real" where
  "segment_term wavelengths values lBegin lEnd i =
     bind_err (rd wavelengths i) (\<lambda>wi.
     bind_err (rd wavelengths (i + 1)) (\<lambda>wj.
       let l0 = max lBegin wi; l1 = min lEnd wj in
       bind_err (interpolate wavelengths values l0 i) (\<lambda>a.
       bind_err (interpolate wavelengths values l1 i) (\<lambda>b.
         Inr (0.5 * (a + b) * (l1 - l0))))))"

text \<open>The loop \<^verbatim>\<open>for (; (i + 1 < count) && (lEnd >= wavelengths[i]); ++i)\<close>; the
  condition is short-circuit, so \<^verbatim>\<open>wavelengths[i]\<close> is read only when \<open>i + 1 < count\<close>.\<close>

function segments ::
  "real list \<Rightarrow> real list \<Rightarrow> nat \<Rightarrow> real \<Rightarrow> real \<Rightarrow> nat \<Rightarrow> real \<Rightarrow> error + real" where
  "segments wavelengths values count lBegin lEnd i result =
     (if i + 1 < count then
        (case rd wavelengths i of
           Inl e \<Rightarrow> Inl e
         | Inr wi \<Rightarrow>
             if lEnd \<ge> wi then
               (case segment_term wavelengths values lBegin lEnd i of
                  Inl e \<Rightarrow> Inl e
                | Inr d \<Rightarrow> segments wavelengths values count lBegin lEnd (i + 1) (result + d))
             else Inr result)
      else Inr result)"
  by pat_completeness auto
termination
  by (relation "measure (\<lambda>(ws, vs, count, lB, lE, i, r). count - i)") auto

definition averageSamples :: "real list \<Rightarrow> real list \<Rightarrow> nat \<Rightarrow> real \<Rightarrow> real \<Rightarrow> error + real" where
  "averageSamples wavelengths values count lBegin lEnd =
     (if \<not> count > 0 then Inl AssertionFailed
      else if count = 1 then rd values 0
      else
        bind_err (rd wavelengths 0) (\<lambda>w0.
        if lEnd \<le> w0 then rd values 0
        else
          bind_err (rd wavelengths (count - 1)) (\<lambda>wl.
          if lBegin \<ge> wl then rd values (count - 1)
          else
            let result = 0;
                result = (if lBegin < w0 then result + 0 else result);
                result = (if lEnd > wl then result + 0 else result)
            in
            bind_err (advance wavelengths lBegin 0) (\<lambda>i.
            bind_err (segments wavelengths values count lBegin lEnd i result) (\<lambda>result.
            bind_err (fdiv 1 (lEnd - lBegin)) (\<lambda>d.
              Inr (result * d)))))))"

declare advance.simps [simp del]
declare segments.simps [simp del]

subsection \<open>fromSamples\<close>

text \<open>The first loop of \<^verbatim>\<open>fromSamples\<close>:
  \<^verbatim>\<open>for (i = 0; i + 1 < count; ++i) assert(wavelengths[i] < wavelengths[i + 1]);\<close>\<close>

function assert_increasing :: "real list \<Rightarrow> nat \<Rightarrow> nat \<Rightarrow> error + unit" where
  "assert_increasing wavelengths count i =
     (if i + 1 < count then
        (case rd wavelengths i of
           Inl e \<Rightarrow> Inl e
         | Inr wi \<Rightarrow>
             (case rd wavelengths (i + 1) of
                Inl e \<Rightarrow> Inl e
              | Inr wj \<Rightarrow>
                  if wi < wj then assert_increasing wavelengths count (i + 1)
                  else Inl AssertionFailed))
      else Inr ())"
  by pat_completeness auto
termination
  by (relation "measure (\<lambda>(ws, count, i). count - i)") auto

text \<open>The second loop: one call of \<^verbatim>\<open>averageSamples\<close> per bin, stored with
  \<^verbatim>\<open>result[i] = ...\<close>. The bounds \<^verbatim>\<open>l0\<close> and \<^verbatim>\<open>l1\<close> are computed in \<^verbatim>\<open>float\<close>, operation
  by operation; \<^verbatim>\<open>float(i)\<close>, \<^verbatim>\<open>float(SampleCount)\<close>, \<^verbatim>\<open>float(WavelengthBegin)\<close> and
  \<^verbatim>\<open>float(WavelengthEnd)\<close> are exact, the four being small integers.\<close>

function fill_bins ::
  "real list \<Rightarrow> real list \<Rightarrow> nat \<Rightarrow> nat \<Rightarrow> SampledSpectrum \<Rightarrow> error + SampledSpectrum" where
  "fill_bins wavelengths values count i result =
     (if i < SampleCount then
        (let t0 = div32 (real i) (real SampleCount);
             l0 = add32 (mul32 (real WavelengthBegin) (sub32 1 t0))
                        (mul32 (real WavelengthEnd) t0);
             t1 = div32 (real (i + 1)) (real SampleCount);
             l1 = add32 (mul32 (real WavelengthBegin) (sub32 1 t1))
                        (mul32 (real WavelengthEnd) t1)
         in case averageSamples wavelengths values count l0 l1 of
              Inl e \<Rightarrow> Inl e
            | Inr v \<Rightarrow>
                (case set_sample result i v of
                   Inl e \<Rightarrow> Inl e
                 | Inr result' \<Rightarrow> fill_bins wavelengths values count (i + 1) result'))
      else Inr result)"
  by pat_completeness auto
termination
  by (relation "measure (\<lambda>(ws, vs, count, i, r). SampleCount - i)") auto

definition fromSamples :: "real list \<Rightarrow> real list \<Rightarrow> nat \<Rightarrow> error + SampledSpectrum" where
  "fromSamples wavelengths values count =
     bind_err (assert_increasing wavelengths count 0) (\<lambda>_.
       fill_bins wavelengths values count 0 (SampledSpectrumBase 0))"

declare assert_increasing.simps [simp del]
declare fill_bins.simps [simp del]

subsection \<open>The CIE tables and the function-local statics\<close>

text \<open>\<^verbatim>\<open>CIE::sampleCount\<close>.\<close>

definition sampleCount :: nat where "sampleCount = 471"

text \<open>The four arrays \<^verbatim>\<open>CIE::wavelengths\<close>, \<^verbatim>\<open>CIE::x\<close>, \<^verbatim>\<open>CIE::y\<close>, \<^verbatim>\<open>CIE::z\<close> are declared
  \<^verbatim>\<open>extern const float [sampleCount]\<close> in the header and defined elsewhere: they are a
  parameter of the model.\<close>

record CIE_tables =
  CIE_wavelengths :: "real list"
  CIE_x :: "real list"
  CIE_y :: "real list"
  CIE_z :: "real list"

text \<open>The function-local \<^verbatim>\<open>static\<close> variables of \<^verbatim>\<open>X()\<close>, \<^verbatim>\<open>Y()\<close>, \<^verbatim>\<open>Z()\<close> and
  \<^verbatim>\<open>yIntegral()\<close>: \<open>None\<close> until the first call has initialised them.\<close>

record statics =
  X_static :: "SampledSpectrum option"
  Y_static :: "SampledSpectrum option"
  Z_static :: "SampledSpectrum option"
  yIntegral_static :: "real option"

definition statics_init :: statics where
  "statics_init =
     \<lparr>X_static = None, Y_static = None, Z_static = None, yIntegral_static = None\<rparr>"

definition X :: "CIE_tables \<Rightarrow> statics \<Rightarrow> error + SampledSpectrum \<times> statics" where
  "X cie st =
     (case X_static st of
        Some s \<Rightarrow> Inr (s, st)
      | None \<Rightarrow>
          bind_err (fromSamples (CIE_wavelengths cie) (CIE_x cie) sampleCount) (\<lambda>s.
            Inr (s, st\<lparr>X_static := Some s\<rparr>)))"

definition Y :: "CIE_tables \<Rightarrow> statics \<Rightarrow> error + SampledSpectrum \<times> statics" where
  "Y cie st =
     (case Y_static st of
        Some s \<Rightarrow> Inr (s, st)
      | None \<Rightarrow>
          bind_err (fromSamples (CIE_wavelengths cie) (CIE_y cie) sampleCount) (\<lambda>s.
            Inr (s, st\<lparr>Y_static := Some s\<rparr>)))"

definition Z :: "CIE_tables \<Rightarrow> statics \<Rightarrow> error + SampledSpectrum \<times> statics" where
  "Z cie st =
     (case Z_static st of
        Some s \<Rightarrow> Inr (s, st)
      | None \<Rightarrow>
          bind_err (fromSamples (CIE_wavelengths cie) (CIE_z cie) sampleCount) (\<lambda>s.
            Inr (s, st\<lparr>Z_static := Some s\<rparr>)))"

text \<open>The lambda \<^verbatim>\<open>acquireIntegral\<close> of \<^verbatim>\<open>yIntegral\<close>, its loop first.\<close>

function acquireIntegral_loop :: "real list \<Rightarrow> nat \<Rightarrow> real \<Rightarrow> error + real" where
  "acquireIntegral_loop ys i result =
     (if i < sampleCount then
        (case rd ys i of
           Inl e \<Rightarrow> Inl e
         | Inr v \<Rightarrow> acquireIntegral_loop ys (i + 1) (result + v))
      else Inr result)"
  by pat_completeness auto
termination
  by (relation "measure (\<lambda>(ys, i, r). sampleCount - i)") auto

definition acquireIntegral :: "CIE_tables \<Rightarrow> error + real" where
  "acquireIntegral cie = acquireIntegral_loop (CIE_y cie) 0 0"

definition yIntegral :: "CIE_tables \<Rightarrow> statics \<Rightarrow> error + real \<times> statics" where
  "yIntegral cie st =
     (case yIntegral_static st of
        Some v \<Rightarrow> Inr (v, st)
      | None \<Rightarrow>
          bind_err (acquireIntegral cie) (\<lambda>v.
            Inr (v, st\<lparr>yIntegral_static := Some v\<rparr>)))"

declare acquireIntegral_loop.simps [simp del]

subsection \<open>toXYZ and toRGB\<close>

text \<open>\<^verbatim>\<open>using Float3 = struct { float a, b, c; }\<close>.\<close>

datatype Float3 = Float3 (Float3_a: real) (Float3_b: real) (Float3_c: real)

text \<open>The accumulation loop of \<^verbatim>\<open>toXYZ\<close>, on the three running sums.\<close>

function toXYZ_loop ::
  "SampledSpectrum \<Rightarrow> SampledSpectrum \<Rightarrow> SampledSpectrum \<Rightarrow> SampledSpectrum \<Rightarrow>
   nat \<Rightarrow> real \<times> real \<times> real \<Rightarrow> error + real \<times> real \<times> real" where
  "toXYZ_loop sX sY sZ samples i acc =
     (if i < SampleCount then
        (case rd samples i of
           Inl e \<Rightarrow> Inl e
         | Inr s \<Rightarrow>
        (case rd sX i of
           Inl e \<Rightarrow> Inl e
         | Inr vx \<Rightarrow>
        (case rd sY i of
           Inl e \<Rightarrow> Inl e
         | Inr vy \<Rightarrow>
        (case rd sZ i of
           Inl e \<Rightarrow> Inl e
         | Inr vz \<Rightarrow>
             (case acc of (x, y, z) \<Rightarrow>
                toXYZ_loop sX sY sZ samples (i + 1) (x + vx * s, y + vy * s, z + vz * s))))))
      else Inr acc)"
  by pat_completeness auto
termination
  by (relation "measure (\<lambda>(sX, sY, sZ, s, i, acc). SampleCount - i)") auto

definition toXYZ :: "CIE_tables \<Rightarrow> statics \<Rightarrow> SampledSpectrum \<Rightarrow> error + Float3 \<times> statics" where
  "toXYZ cie st samples =
     bind_err (X cie st) (\<lambda>(sX, st).
     bind_err (Y cie st) (\<lambda>(sY, st).
     bind_err (Z cie st) (\<lambda>(sZ, st).
     bind_err (toXYZ_loop sX sY sZ samples 0 (0, 0, 0)) (\<lambda>(x, y, z).
     bind_err (yIntegral cie st) (\<lambda>(yi, st).
     bind_err (fdiv (real WavelengthEnd - real WavelengthBegin) (real SampleCount * yi)) (\<lambda>scale.
       Inr (Float3 (x * scale) (y * scale) (z * scale), st)))))))"

definition toRGB :: "CIE_tables \<Rightarrow> statics \<Rightarrow> SampledSpectrum \<Rightarrow> error + Float3 \<times> statics" where
  "toRGB cie st samples =
     bind_err (toXYZ cie st samples) (\<lambda>(xyz, st).
       let r = 3.240479 * Float3_a xyz - 1.537150 * Float3_b xyz - 0.498535 * Float3_c xyz;
           g = - 0.969256 * Float3_a xyz + 1.875991 * Float3_b xyz + 0.041556 * Float3_c xyz;
           b = 0.055648 * Float3_a xyz - 0.204043 * Float3_b xyz + 1.057311 * Float3_c xyz
       in Inr (Float3 r g b, st))"

declare toXYZ_loop.simps [simp del]

section \<open>The specification's notions\<close>

text \<open>The definitions of this section follow the words of the specification; the
  theorems compare them with the functions above.\<close>

text \<open>The \<open>lerp\<close> of the specification,
  \<^verbatim>\<open>lerp(t) = WavelengthBegin*(1-t) + WavelengthEnd*t\<close>, in the arithmetic of the program:
  single precision, every operation rounded.\<close>

definition lerp :: "real \<Rightarrow> real" where
  "lerp t = add32 (mul32 (real WavelengthBegin) (sub32 1 t)) (mul32 (real WavelengthEnd) t)"

text \<open>The bound \<open>lerp(i/N)\<close> between bin \<open>i - 1\<close> and bin \<open>i\<close>; the quotient \<open>i/N\<close> is a
  single-precision division as well.\<close>

definition bin_bound :: "nat \<Rightarrow> real" where
  "bin_bound i = lerp (div32 (real i) (real SampleCount))"

text \<open>The local linear interpolant of segment \<open>i\<close>, as the specification writes it:
  \<^verbatim>\<open>value = v[i] + (v[i+1]-v[i]) * (l - w[i]) / (w[i+1]-w[i])\<close>.\<close>

definition linear_on_segment :: "real list \<Rightarrow> real list \<Rightarrow> nat \<Rightarrow> real \<Rightarrow> real" where
  "linear_on_segment ws vs i l =
     vs ! i + (vs ! (i + 1) - vs ! i) * (l - ws ! i) / (ws ! (i + 1) - ws ! i)"

text \<open>The piecewise-linear interpolant of a table of \<open>count\<close> samples, on the covered
  range \<open>[w[0], w[count-1]]\<close>: at \<open>l\<close> it is the local interpolant of the first segment
  that reaches \<open>l\<close>. It takes the value \<open>v[i]\<close> at \<open>w[i]\<close> (lemma
  \<open>piecewise_linear_at_sample\<close>) and agrees with the local interpolant of every segment
  that contains \<open>l\<close> (lemma \<open>piecewise_linear_on_segment\<close>).\<close>

definition piecewise_linear :: "real list \<Rightarrow> real list \<Rightarrow> nat \<Rightarrow> real \<Rightarrow> real" where
  "piecewise_linear ws vs count l =
     (case find (\<lambda>i. l \<le> ws ! (i + 1)) [0..<count - 1] of
        Some i \<Rightarrow> linear_on_segment ws vs i l
      | None \<Rightarrow> vs ! (count - 1))"

text \<open>An antiderivative of the interpolant of segment \<open>i\<close> (lemma
  \<open>segment_primitive_deriv\<close>), and with it the integral of the interpolant of segment
  \<open>i\<close> from \<open>p\<close> to \<open>q\<close>.\<close>

definition segment_primitive :: "real list \<Rightarrow> real list \<Rightarrow> nat \<Rightarrow> real \<Rightarrow> real" where
  "segment_primitive ws vs i l =
     vs ! i * (l - ws ! i) +
     (vs ! (i + 1) - vs ! i) * (l - ws ! i)\<^sup>2 / (2 * (ws ! (i + 1) - ws ! i))"

definition segment_integral :: "real list \<Rightarrow> real list \<Rightarrow> nat \<Rightarrow> real \<Rightarrow> real \<Rightarrow> real" where
  "segment_integral ws vs i p q = segment_primitive ws vs i q - segment_primitive ws vs i p"

text \<open>The part of the integral from \<open>p\<close> to \<open>q\<close> that falls on segment \<open>i\<close>: the
  integral over the intersection of \<open>[p, q]\<close> with \<open>[w[i], w[i+1]]\<close>, zero when they do not
  overlap.\<close>

definition clipped_integral :: "real list \<Rightarrow> real list \<Rightarrow> real \<Rightarrow> real \<Rightarrow> nat \<Rightarrow> real" where
  "clipped_integral ws vs p q i =
     (let a = max p (ws ! i); b = min q (ws ! (i + 1))
      in if a < b then segment_integral ws vs i a b else 0)"

text \<open>The integral of the piecewise-linear interpolant of a table of \<open>count\<close> samples
  from \<open>p\<close> to \<open>q\<close>: the sum over all \<open>count - 1\<close> segments. Outside the covered range
  \<open>[w[0], w[count-1]]\<close> there is no segment, hence no contribution. That this sum is the
  integral of \<open>piecewise_linear\<close> is the content of the lemmas
  \<open>piecewise_integral_antiderivative\<close>, \<open>piecewise_integral_difference\<close> and
  \<open>piecewise_integral_within_segment\<close>.\<close>

definition piecewise_integral :: "real list \<Rightarrow> real list \<Rightarrow> nat \<Rightarrow> real \<Rightarrow> real \<Rightarrow> real" where
  "piecewise_integral ws vs count p q = (\<Sum>i\<leftarrow>[0..<count - 1]. clipped_integral ws vs p q i)"

text \<open>The weighted sum \<open>sum_i s[i] * u[i]\<close> over the \<open>N\<close> bins.\<close>

definition weighted_sum :: "SampledSpectrum \<Rightarrow> SampledSpectrum \<Rightarrow> real" where
  "weighted_sum s u = (\<Sum>i<SampleCount. s ! i * u ! i)"

section \<open>Assumptions on the tables and the statics\<close>

text \<open>What the theorems on \<^verbatim>\<open>X()\<close>, \<^verbatim>\<open>Y()\<close>, \<^verbatim>\<open>Z()\<close>, \<^verbatim>\<open>yIntegral()\<close>, \<^verbatim>\<open>toXYZ\<close> and
  \<^verbatim>\<open>toRGB\<close> assume of the CIE tables, which the header only declares: each array has
  \<^verbatim>\<open>CIE::sampleCount\<close> entries (its declared size), the wavelengths are strictly increasing
  (the specification's data model; \<^verbatim>\<open>fromSamples\<close> asserts it), and the raw \<open>y\<close> entries
  do not sum to zero (the sum is the divisor of the scale of \<^verbatim>\<open>toXYZ\<close>).\<close>

definition CIE_wellformed :: "CIE_tables \<Rightarrow> bool" where
  "CIE_wellformed cie \<longleftrightarrow>
     length (CIE_wavelengths cie) = sampleCount \<and> length (CIE_x cie) = sampleCount \<and>
     length (CIE_y cie) = sampleCount \<and> length (CIE_z cie) = sampleCount \<and>
     sorted_wrt (<) (CIE_wavelengths cie) \<and> sum_list (CIE_y cie) \<noteq> 0"

text \<open>The invariant of the statics: a static that has been initialised holds what its
  initialiser computes. The state in which no static is initialised satisfies it, and every
  call of the four functions keeps it.\<close>

definition statics_ok :: "CIE_tables \<Rightarrow> statics \<Rightarrow> bool" where
  "statics_ok cie st \<longleftrightarrow>
     (case X_static st of None \<Rightarrow> True
      | Some s \<Rightarrow> fromSamples (CIE_wavelengths cie) (CIE_x cie) sampleCount = Inr s) \<and>
     (case Y_static st of None \<Rightarrow> True
      | Some s \<Rightarrow> fromSamples (CIE_wavelengths cie) (CIE_y cie) sampleCount = Inr s) \<and>
     (case Z_static st of None \<Rightarrow> True
      | Some s \<Rightarrow> fromSamples (CIE_wavelengths cie) (CIE_z cie) sampleCount = Inr s) \<and>
     (case yIntegral_static st of None \<Rightarrow> True
      | Some v \<Rightarrow> acquireIntegral cie = Inr v)"

text \<open>The statics once all four are initialised.\<close>

definition statics_filled ::
  "statics \<Rightarrow> SampledSpectrum \<Rightarrow> SampledSpectrum \<Rightarrow> SampledSpectrum \<Rightarrow> real \<Rightarrow> statics" where
  "statics_filled st sX sY sZ yi =
     st\<lparr>X_static := Some sX, Y_static := Some sY, Z_static := Some sZ,
        yIntegral_static := Some yi\<rparr>"

text \<open>A well-formed table to instantiate the theorems: the wavelengths
  \<open>360, 361, \<dots>, 830\<close>, every \<open>x\<close>, \<open>y\<close> and \<open>z\<close> entry \<open>1\<close>.\<close>

definition example_CIE :: CIE_tables where
  "example_CIE =
     \<lparr>CIE_wavelengths = map real [360..<360 + sampleCount], CIE_x = replicate sampleCount 1,
      CIE_y = replicate sampleCount 1, CIE_z = replicate sampleCount 1\<rparr>"

section \<open>Auxiliary lemmas\<close>

subsection \<open>Results and segments\<close>

lemma bind_err_Inr [simp]: "bind_err (Inr x) f = f x"
  by (simp add: bind_err_def)

lemma bind_err_Inl [simp]: "bind_err (Inl e) f = Inl e"
  by (simp add: bind_err_def)

lemma rd_in_range: "i < length xs \<Longrightarrow> rd xs i = Inr (xs ! i)"
  by (simp add: rd_def)

lemma fdiv_nonzero: "y \<noteq> 0 \<Longrightarrow> fdiv x y = Inr (x / y)"
  by (simp add: fdiv_def)

lemma blend_as_ramp:
  fixes d :: real
  assumes "d \<noteq> 0"
  shows "u * (1 - s / d) + v * (s / d) = u + (v - u) * s / d"
  using assms by (simp add: field_simps)

lemma trapezoid_of_ramp:
  fixes d :: real
  assumes "d \<noteq> 0"
  shows "0.5 * ((u + (v - u) * s / d) + (u + (v - u) * t / d)) * (t - s)
         = (u * t + (v - u) * t\<^sup>2 / (2 * d)) - (u * s + (v - u) * s\<^sup>2 / (2 * d))"
  using assms by (simp add: field_simps power2_eq_square)

lemma segment_primitive_deriv:
  assumes "ws ! i \<noteq> ws ! (i + 1)"
  shows "(segment_primitive ws vs i has_real_derivative linear_on_segment ws vs i l) (at l)"
proof -
  have "(2 * l - 2 * ws ! i) * (vs ! Suc i - vs ! i) / (2 * ws ! Suc i - 2 * ws ! i)
        = (2 * ((vs ! Suc i - vs ! i) * (l - ws ! i))) / (2 * (ws ! Suc i - ws ! i))"
    by (simp add: algebra_simps)
  also have "\<dots> = (vs ! Suc i - vs ! i) * (l - ws ! i) / (ws ! Suc i - ws ! i)"
    by (simp only: mult_divide_mult_cancel_left_if) simp
  finally show ?thesis
    unfolding segment_primitive_def linear_on_segment_def
    using assms by (auto intro!: derivative_eq_intros simp: power2_eq_square)
qed

lemma interpolate_linear:
  assumes "i + 1 < length ws" "length vs = length ws" "ws ! i < ws ! (i + 1)"
  shows "interpolate ws vs l i = Inr (linear_on_segment ws vs i l)"
  using assms blend_as_ramp [of "ws ! (i + 1) - ws ! i" "vs ! i" "l - ws ! i" "vs ! (i + 1)"]
  by (simp add: interpolate_def rd_in_range fdiv_nonzero linear_on_segment_def)

lemma trapezoid_exact:
  assumes "ws ! i < ws ! (i + 1)"
  shows "0.5 * (linear_on_segment ws vs i p + linear_on_segment ws vs i q) * (q - p)
         = segment_integral ws vs i p q"
proof -
  have "q - p = (q - ws ! i) - (p - ws ! i)" by simp
  then show ?thesis
    using assms trapezoid_of_ramp [of "ws ! (i + 1) - ws ! i" "vs ! i" "vs ! (i + 1)"
        "p - ws ! i" "q - ws ! i"]
    by (simp add: linear_on_segment_def segment_integral_def segment_primitive_def)
qed

lemma segment_term_integral:
  assumes "i + 1 < length ws" "length vs = length ws" "ws ! i < ws ! (i + 1)"
  shows "segment_term ws vs lB lE i
         = Inr (segment_integral ws vs i (max lB (ws ! i)) (min lE (ws ! (i + 1))))"
  using assms trapezoid_exact [of ws i vs "max lB (ws ! i)" "min lE (ws ! (i + 1))"]
  by (simp add: segment_term_def rd_in_range interpolate_linear Let_def)

subsection \<open>The loops of averageSamples\<close>

lemma increasing_nth:
  assumes "sorted_wrt (<) ws" "i < j" "j < length ws"
  shows "ws ! i < (ws ! j :: real)"
  using assms by (simp add: sorted_wrt_iff_nth_less)

lemma increasing_nth_le:
  assumes "sorted_wrt (<) ws" "i \<le> j" "j < length ws"
  shows "ws ! i \<le> (ws ! j :: real)"
  using assms increasing_nth [of ws i j] by (cases "i = j") auto

lemma sum_list_map_zero:
  assumes "\<And>x. x \<in> set xs \<Longrightarrow> f x = (0::real)"
  shows "sum_list (map f xs) = 0"
  using assms by (induction xs) auto

lemma advance_stops:
  assumes "i + 1 < length ws" "lB < ws ! (length ws - 1)"
  shows "\<exists>k. advance ws lB i = Inr k \<and> i \<le> k \<and> k + 1 < length ws \<and> lB \<le> ws ! (k + 1)
            \<and> (\<forall>j. i \<le> j \<and> j < k \<longrightarrow> ws ! (j + 1) < lB)"
  using assms
proof (induction ws lB i rule: advance.induct)
  case (1 ws lB i)
  have rd: "rd ws (i + 1) = Inr (ws ! (i + 1))"
    using "1.prems" by (simp add: rd_in_range)
  show ?case
  proof (cases "lB > ws ! (i + 1)")
    case False
    then show ?thesis
      using rd "1.prems" by (subst advance.simps) auto
  next
    case True
    with "1.prems" have "i + 1 \<noteq> length ws - 1" by auto
    with "1.prems" have next_ok: "i + 1 + 1 < length ws" by simp
    from "1.IH" [OF rd True next_ok "1.prems"(2)]
    obtain k where k: "advance ws lB (i + 1) = Inr k" "i + 1 \<le> k" "k + 1 < length ws"
      "lB \<le> ws ! (k + 1)" "\<forall>j. i + 1 \<le> j \<and> j < k \<longrightarrow> ws ! (j + 1) < lB"
      by blast
    have "\<forall>j. i \<le> j \<and> j < k \<longrightarrow> ws ! (j + 1) < lB"
    proof (intro allI impI)
      fix j assume "i \<le> j \<and> j < k"
      then show "ws ! (j + 1) < lB"
        using k(5) True by (cases "j = i") auto
    qed
    moreover have "advance ws lB i = Inr k"
      using rd True k(1) by (subst advance.simps) simp
    ultimately show ?thesis
      using k by auto
  qed
qed

lemma clipped_integral_left_zero:
  assumes "ws ! (j + 1) < p"
  shows "clipped_integral ws vs p q j = 0"
  using assms by (simp add: clipped_integral_def Let_def)

lemma clipped_integral_right_zero:
  assumes "q < ws ! j"
  shows "clipped_integral ws vs p q j = 0"
  using assms by (simp add: clipped_integral_def Let_def)

lemma clipped_integral_inside:
  assumes "max p (ws ! j) \<le> min q (ws ! (j + 1))"
  shows "clipped_integral ws vs p q j
         = segment_integral ws vs j (max p (ws ! j)) (min q (ws ! (j + 1)))"
proof (cases "max p (ws ! j) < min q (ws ! (j + 1))")
  case True
  then show ?thesis by (simp add: clipped_integral_def Let_def)
next
  case False
  with assms have "max p (ws ! j) = min q (ws ! (j + 1))" by linarith
  then show ?thesis by (simp add: clipped_integral_def Let_def segment_integral_def)
qed

lemma segments_sum:
  assumes "sorted_wrt (<) ws" "length ws = count" "length vs = count" "lB < lE"
    and "i + 1 < count \<longrightarrow> lB \<le> ws ! (i + 1)"
  shows "segments ws vs count lB lE i r
         = Inr (r + (\<Sum>j\<leftarrow>[i..<count - 1]. clipped_integral ws vs lB lE j))"
  using assms
proof (induction ws vs count lB lE i r rule: segments.induct)
  case (1 ws vs count lB lE i r)
  show ?case
  proof (cases "i + 1 < count")
    case False
    then show ?thesis by (subst segments.simps) simp
  next
    case inside: True
    have rd: "rd ws i = Inr (ws ! i)"
      using inside "1.prems" by (simp add: rd_in_range)
    have step: "ws ! i < ws ! (i + 1)"
      using inside "1.prems" increasing_nth [of ws i "i + 1"] by simp
    have upt: "[i..<count - 1] = i # [i + 1..<count - 1]"
      using inside by (simp add: upt_conv_Cons)
    show ?thesis
    proof (cases "lE \<ge> ws ! i")
      case True
      have body: "segment_term ws vs lB lE i
                  = Inr (segment_integral ws vs i (max lB (ws ! i)) (min lE (ws ! (i + 1))))"
        using inside "1.prems" step by (simp add: segment_term_integral)
      have "max lB (ws ! i) \<le> min lE (ws ! (i + 1))"
        using True step "1.prems" inside by simp
      then have clip: "clipped_integral ws vs lB lE i
                  = segment_integral ws vs i (max lB (ws ! i)) (min lE (ws ! (i + 1)))"
        by (rule clipped_integral_inside)
      have next_pre: "i + 1 + 1 < count \<longrightarrow> lB \<le> ws ! (i + 1 + 1)"
      proof
        assume "i + 1 + 1 < count"
        then have "ws ! (i + 1) < ws ! (i + 1 + 1)"
          using "1.prems" increasing_nth [of ws "i + 1" "i + 1 + 1"] by simp
        then show "lB \<le> ws ! (i + 1 + 1)"
          using "1.prems" inside by simp
      qed
      have "segments ws vs count lB lE (i + 1)
              (r + segment_integral ws vs i (max lB (ws ! i)) (min lE (ws ! (i + 1))))
            = Inr (r + segment_integral ws vs i (max lB (ws ! i)) (min lE (ws ! (i + 1)))
                   + (\<Sum>j\<leftarrow>[i + 1..<count - 1]. clipped_integral ws vs lB lE j))"
        using "1.IH" [OF inside rd True body "1.prems"(1-4) next_pre] .
      then show ?thesis
        using inside rd True body clip upt by (subst segments.simps) (simp add: add.assoc)
    next
      case False
      have "clipped_integral ws vs lB lE j = 0" if "j \<in> set [i..<count - 1]" for j
      proof -
        from that have "i \<le> j" "j < length ws" using "1.prems" by auto
        then have "ws ! i \<le> ws ! j"
          using "1.prems" increasing_nth_le by blast
        with False show ?thesis
          by (intro clipped_integral_right_zero) simp
      qed
      then have "(\<Sum>j\<leftarrow>[i..<count - 1]. clipped_integral ws vs lB lE j) = 0"
        by (rule sum_list_map_zero)
      then show ?thesis
        using inside rd False by (subst segments.simps) simp
    qed
  qed
qed

lemma averageSamples_integral:
  assumes "2 \<le> count" "length ws = count" "length vs = count" "sorted_wrt (<) ws"
    and "lB < lE" "ws ! 0 < lE" "lB < ws ! (count - 1)"
  shows "averageSamples ws vs count lB lE
         = Inr (piecewise_integral ws vs count lB lE / (lE - lB))"
proof -
  obtain k where k: "advance ws lB 0 = Inr k" "k + 1 < length ws" "lB \<le> ws ! (k + 1)"
    "\<forall>j. 0 \<le> j \<and> j < k \<longrightarrow> ws ! (j + 1) < lB"
    using advance_stops [of 0 ws lB] assms by auto
  have seg: "segments ws vs count lB lE k 0
             = Inr (0 + (\<Sum>j\<leftarrow>[k..<count - 1]. clipped_integral ws vs lB lE j))"
    using assms k by (intro segments_sum) auto
  have "clipped_integral ws vs lB lE j = 0" if "j \<in> set [0..<k]" for j
    using that k(4) by (intro clipped_integral_left_zero) simp
  then have zero: "(\<Sum>j\<leftarrow>[0..<k]. clipped_integral ws vs lB lE j) = 0"
    by (rule sum_list_map_zero)
  have "k \<le> count - 1"
    using k(2) assms by simp
  then have "k + (count - 1 - k) = count - 1"
    by simp
  then have "[0..<count - 1] = [0..<k] @ [k..<count - 1]"
    using upt_add_eq_append [of 0 k "count - 1 - k"] by (simp only: le0)
  then have total: "piecewise_integral ws vs count lB lE
                    = (\<Sum>j\<leftarrow>[k..<count - 1]. clipped_integral ws vs lB lE j)"
    using zero by (simp add: piecewise_integral_def)
  show ?thesis
    using assms k(1) seg total
    by (simp add: averageSamples_def rd_in_range fdiv_nonzero Let_def)
qed

subsection \<open>Single-precision rounding and the bin bounds\<close>

lemma exponent_up_unfold:
  "exponent_up n y = (if n = 0 then 0 else if y < 2 then 0 else 1 + exponent_up (n - 1) (y / 2))"
  by (cases n) simp_all

lemma exponent_down_unfold:
  "exponent_down n y
   = (if n = 0 then 0 else if 1 \<le> y then 0 else exponent_down (n - 1) (y * 2) - 1)"
  by (cases n) simp_all

lemmas round32_eval = round32_def float_ulp_def float_exponent_def pow2_def
  round_half_even_def exponent_up_unfold exponent_down_unfold Let_def

lemmas op32_eval = add32_def sub32_def mul32_def div32_def round32_eval

lemma round_half_even_near: "\<bar>real_of_int (round_half_even r) - r\<bar> \<le> 1 / 2"
proof -
  have "0 \<le> r - of_int \<lfloor>r\<rfloor>" "r - of_int \<lfloor>r\<rfloor> < 1"
    by linarith+
  then show ?thesis
    by (auto simp: round_half_even_def Let_def)
qed

lemma pow2_positive: "0 < pow2 e"
  by (simp add: pow2_def)

text \<open>Rounding moves a number by at most half the distance between neighbours.\<close>

lemma round32_error: "\<bar>round32 x - x\<bar> \<le> float_ulp x / 2"
proof -
  define u where "u = float_ulp x"
  define n where "n = real_of_int (round_half_even (\<bar>x\<bar> / u))"
  have u: "0 < u"
    by (simp add: u_def float_ulp_def pow2_positive)
  have "\<bar>n - \<bar>x\<bar> / u\<bar> \<le> 1 / 2"
    unfolding n_def by (rule round_half_even_near)
  then have "\<bar>n - \<bar>x\<bar> / u\<bar> * u \<le> 1 / 2 * u"
    using u by (intro mult_right_mono) auto
  moreover have "(n - \<bar>x\<bar> / u) * u = n * u - \<bar>x\<bar>"
    using u by (simp add: left_diff_distrib)
  then have "\<bar>n - \<bar>x\<bar> / u\<bar> * u = \<bar>n * u - \<bar>x\<bar>\<bar>"
    using u abs_mult [of "n - \<bar>x\<bar> / u" u] by simp
  ultimately have near: "\<bar>n * u - \<bar>x\<bar>\<bar> \<le> u / 2"
    by simp
  have "sgn x * \<bar>x\<bar> = x"
    by (rule mult_sgn_abs)
  then have "round32 x - x = sgn x * (n * u - \<bar>x\<bar>)"
    by (simp add: round32_def u_def n_def right_diff_distrib mult.assoc)
  then have "\<bar>round32 x - x\<bar> = \<bar>sgn x\<bar> * \<bar>n * u - \<bar>x\<bar>\<bar>"
    by (simp add: abs_mult)
  also have "\<dots> \<le> \<bar>n * u - \<bar>x\<bar>\<bar>"
    by (cases "x = 0") (simp_all add: abs_sgn_eq)
  finally show ?thesis
    using near by (simp add: u_def)
qed

text \<open>Some roundings: numbers that single precision represents, the single-precision
  \<open>0.1\<close> and \<open>1/3\<close>, two ties, a negative number, a subnormal result.\<close>

lemma round32_examples:
  "round32 0 = 0" "round32 400 = 400" "round32 700 = 700" "round32 (5 / 8) = 5 / 8"
  "round32 (1 / 10) = 13421773 / 2 ^ 27" "round32 (1 / 3) = 11184811 / 2 ^ 25"
  "round32 (1 + 1 / 2 ^ 24) = 1" "round32 (1 + 3 / 2 ^ 24) = 1 + 1 / 2 ^ 22"
  "round32 (- (1 / 10)) = - (13421773 / 2 ^ 27)"
  "round32 (3 / 2 ^ 150) = 1 / 2 ^ 148"
  by (simp_all add: round32_eval)

text \<open>The 61 bin bounds as the program computes them. All but two are the exact
  \<open>400 + 5 * i\<close>; bound 5 and bound 59 are one unit in the last place above.\<close>

lemma bin_bound_values:
  "bin_bound 0 = 400" "bin_bound 1 = 405" "bin_bound 2 = 410"
  "bin_bound 3 = 415" "bin_bound 4 = 420" "bin_bound 5 = 425 + 1 / 2 ^ 15"
  "bin_bound 6 = 430" "bin_bound 7 = 435" "bin_bound 8 = 440"
  "bin_bound 9 = 445" "bin_bound 10 = 450" "bin_bound 11 = 455"
  "bin_bound 12 = 460" "bin_bound 13 = 465" "bin_bound 14 = 470"
  "bin_bound 15 = 475" "bin_bound 16 = 480" "bin_bound 17 = 485"
  "bin_bound 18 = 490" "bin_bound 19 = 495" "bin_bound 20 = 500"
  "bin_bound 21 = 505" "bin_bound 22 = 510" "bin_bound 23 = 515"
  "bin_bound 24 = 520" "bin_bound 25 = 525" "bin_bound 26 = 530"
  "bin_bound 27 = 535" "bin_bound 28 = 540" "bin_bound 29 = 545"
  "bin_bound 30 = 550" "bin_bound 31 = 555" "bin_bound 32 = 560"
  "bin_bound 33 = 565" "bin_bound 34 = 570" "bin_bound 35 = 575"
  "bin_bound 36 = 580" "bin_bound 37 = 585" "bin_bound 38 = 590"
  "bin_bound 39 = 595" "bin_bound 40 = 600" "bin_bound 41 = 605"
  "bin_bound 42 = 610" "bin_bound 43 = 615" "bin_bound 44 = 620"
  "bin_bound 45 = 625" "bin_bound 46 = 630" "bin_bound 47 = 635"
  "bin_bound 48 = 640" "bin_bound 49 = 645" "bin_bound 50 = 650"
  "bin_bound 51 = 655" "bin_bound 52 = 660" "bin_bound 53 = 665"
  "bin_bound 54 = 670" "bin_bound 55 = 675" "bin_bound 56 = 680"
  "bin_bound 57 = 685" "bin_bound 58 = 690" "bin_bound 59 = 695 + 1 / 2 ^ 14"
  "bin_bound 60 = 700"
  by (simp_all add: bin_bound_def lerp_def op32_eval SampleCount_def SpectralSampleCount_def
      WavelengthBegin_def WavelengthEnd_def)

lemma bin_bound_Suc_0: "bin_bound (Suc 0) = 405"
  using bin_bound_values(2) by simp

lemma bin_bound_closed:
  assumes "j \<le> 60"
  shows "bin_bound j
         = 400 + 5 * real j + (if j = 5 then 1 / 2 ^ 15 else if j = 59 then 1 / 2 ^ 14 else 0)"
proof -
  from assms have
     "j = 0 \<or> j = 1 \<or> j = 2 \<or> j = 3 \<or> j = 4 \<or> j = 5 \<or> j = 6 \<or>
      j = 7 \<or> j = 8 \<or> j = 9 \<or> j = 10 \<or> j = 11 \<or> j = 12 \<or> j = 13
      \<or> j = 14 \<or> j = 15 \<or> j = 16 \<or> j = 17 \<or> j = 18 \<or> j = 19 \<or>
      j = 20 \<or> j = 21 \<or> j = 22 \<or> j = 23 \<or> j = 24 \<or> j = 25 \<or> j = 26
      \<or> j = 27 \<or> j = 28 \<or> j = 29 \<or> j = 30 \<or> j = 31 \<or> j = 32 \<or>
      j = 33 \<or> j = 34 \<or> j = 35 \<or> j = 36 \<or> j = 37 \<or> j = 38 \<or> j = 39
      \<or> j = 40 \<or> j = 41 \<or> j = 42 \<or> j = 43 \<or> j = 44 \<or> j = 45 \<or>
      j = 46 \<or> j = 47 \<or> j = 48 \<or> j = 49 \<or> j = 50 \<or> j = 51 \<or> j = 52
      \<or> j = 53 \<or> j = 54 \<or> j = 55 \<or> j = 56 \<or> j = 57 \<or> j = 58 \<or>
      j = 59 \<or> j = 60"
    by arith
  then show ?thesis
    by (elim disjE) (simp_all add: bin_bound_values bin_bound_Suc_0)
qed

lemma bin_bound_increasing:
  assumes "j < SampleCount"
  shows "bin_bound j < bin_bound (j + 1)"
  using assms by (simp add: bin_bound_closed SampleCount_def SpectralSampleCount_def)

lemma bin_bound_range:
  assumes "j < SampleCount"
  shows "real WavelengthBegin \<le> bin_bound j" and "bin_bound (j + 1) \<le> real WavelengthEnd"
  using assms
  by (simp_all add: bin_bound_closed SampleCount_def SpectralSampleCount_def
      WavelengthBegin_def WavelengthEnd_def)

subsection \<open>Early returns, totality and fromSamples\<close>

lemma averageSamples_single:
  assumes "0 < length vs"
  shows "averageSamples ws vs 1 lB lE = Inr (vs ! 0)"
  using assms by (simp add: averageSamples_def rd_in_range)

lemma averageSamples_left:
  assumes "2 \<le> count" "length ws = count" "length vs = count" "lE \<le> ws ! 0"
  shows "averageSamples ws vs count lB lE = Inr (vs ! 0)"
  using assms by (simp add: averageSamples_def rd_in_range)

lemma averageSamples_right:
  assumes "2 \<le> count" "length ws = count" "length vs = count" "ws ! 0 < lE"
    "ws ! (count - 1) \<le> lB"
  shows "averageSamples ws vs count lB lE = Inr (vs ! (count - 1))"
  using assms by (simp add: averageSamples_def rd_in_range)

lemma averageSamples_returns:
  assumes "1 \<le> count" "length ws = count" "length vs = count" "sorted_wrt (<) ws" "lB < lE"
  shows "\<exists>r. averageSamples ws vs count lB lE = Inr r"
proof (cases "count = 1")
  case True
  then show ?thesis using assms averageSamples_single [of vs ws lB lE] by simp
next
  case False
  with assms have two: "2 \<le> count" by simp
  consider "lE \<le> ws ! 0" | "ws ! 0 < lE" "ws ! (count - 1) \<le> lB"
    | "ws ! 0 < lE" "lB < ws ! (count - 1)"
    by linarith
  then show ?thesis
  proof cases
    case 1
    then show ?thesis using two assms averageSamples_left by blast
  next
    case 2
    then show ?thesis using two assms averageSamples_right by blast
  next
    case 3
    then show ?thesis using two assms averageSamples_integral by blast
  qed
qed

lemma assert_increasing_passes:
  assumes "sorted_wrt (<) ws" "length ws = count"
  shows "assert_increasing ws count i = Inr ()"
  using assms
proof (induction ws count i rule: assert_increasing.induct)
  case (1 ws count i)
  show ?case
  proof (cases "i + 1 < count")
    case False
    then show ?thesis by (subst assert_increasing.simps) simp
  next
    case True
    have r0: "rd ws i = Inr (ws ! i)" and r1: "rd ws (i + 1) = Inr (ws ! (i + 1))"
      using True "1.prems" by (simp_all add: rd_in_range)
    have lt: "ws ! i < ws ! (i + 1)"
      using True "1.prems" increasing_nth [of ws i "i + 1"] by simp
    have "assert_increasing ws count (i + 1) = Inr ()"
      using "1.IH" [OF True r0 r1 lt "1.prems"] .
    then show ?thesis
      using True r0 r1 lt by (subst assert_increasing.simps) simp
  qed
qed

lemma fill_bins_result:
  assumes "\<And>j. j < SampleCount \<Longrightarrow>
             averageSamples ws vs count (bin_bound j)
               (bin_bound (j + 1)) = Inr (g j)"
    and "length r = SampleCount" "i \<le> SampleCount"
  shows "fill_bins ws vs count i r
         = Inr (map (\<lambda>j. if j < i then r ! j else g j) [0..<SampleCount])"
  using assms
proof (induction ws vs count i r rule: fill_bins.induct)
  case (1 ws vs count i r)
  show ?case
  proof (cases "i < SampleCount")
    case False
    with "1.prems" have "i = SampleCount" by simp
    then have "map (\<lambda>j. if j < i then r ! j else g j) [0..<SampleCount] = r"
      using "1.prems"(2) by (intro nth_equalityI) auto
    then show ?thesis
      using False by (subst fill_bins.simps) simp
  next
    case True
    have avg: "averageSamples ws vs count
                 (add32 (mul32 (real WavelengthBegin) (sub32 1 (div32 (real i) (real SampleCount))))
                        (mul32 (real WavelengthEnd) (div32 (real i) (real SampleCount))))
                 (add32 (mul32 (real WavelengthBegin)
                           (sub32 1 (div32 (real (i + 1)) (real SampleCount))))
                        (mul32 (real WavelengthEnd) (div32 (real (i + 1)) (real SampleCount))))
               = Inr (g i)"
      using "1.prems"(1) [OF True] by (simp add: bin_bound_def lerp_def)
    have set: "set_sample r i (g i) = Inr (r[i := g i])"
      using True by (simp add: set_sample_def)
    have "fill_bins ws vs count (i + 1) (r[i := g i])
          = Inr (map (\<lambda>j. if j < i + 1 then r[i := g i] ! j else g j) [0..<SampleCount])"
      using "1.IH" [OF True refl refl refl refl avg set "1.prems"(1)] True "1.prems"(2)
      by simp
    moreover have "map (\<lambda>j. if j < i + 1 then r[i := g i] ! j else g j) [0..<SampleCount]
                   = map (\<lambda>j. if j < i then r ! j else g j) [0..<SampleCount]"
    proof (intro map_cong refl)
      fix j assume "j \<in> set [0..<SampleCount]"
      show "(if j < i + 1 then r[i := g i] ! j else g j) = (if j < i then r ! j else g j)"
        using True "1.prems"(2) by (cases "j = i") auto
    qed
    ultimately show ?thesis
      using True avg set by (subst fill_bins.simps) (simp add: Let_def)
  qed
qed

lemma fromSamples_result:
  assumes "sorted_wrt (<) ws" "length ws = count"
    and "\<And>j. j < SampleCount \<Longrightarrow>
             averageSamples ws vs count (bin_bound j)
               (bin_bound (j + 1)) = Inr (g j)"
  shows "fromSamples ws vs count = Inr (map g [0..<SampleCount])"
proof -
  have "fill_bins ws vs count 0 (SampledSpectrumBase 0)
        = Inr (map (\<lambda>j. if j < 0 then SampledSpectrumBase 0 ! j else g j) [0..<SampleCount])"
    using assms(3) by (intro fill_bins_result) (simp_all add: SampledSpectrumBase_def)
  then show ?thesis
    using assms(1,2) by (simp add: fromSamples_def assert_increasing_passes)
qed

lemma fromSamples_bins:
  assumes "1 \<le> count" "length ws = count" "length vs = count" "sorted_wrt (<) ws"
  shows "\<exists>bins. fromSamples ws vs count = Inr bins \<and> length bins = SampleCount \<and>
           (\<forall>i<SampleCount.
              averageSamples ws vs count (bin_bound i)
                (bin_bound (i + 1)) = Inr (bins ! i))"
proof -
  define g where "g j = projr (averageSamples ws vs count (bin_bound j)
                (bin_bound (j + 1)))" for j
  have avg: "averageSamples ws vs count (bin_bound j)
               (bin_bound (j + 1)) = Inr (g j)" if "j < SampleCount" for j
    using averageSamples_returns [OF assms bin_bound_increasing [OF that]]
    by (auto simp: g_def)
  have "fromSamples ws vs count = Inr (map g [0..<SampleCount])"
    using assms avg by (intro fromSamples_result) auto
  then show ?thesis
    using avg by (intro exI [of _ "map g [0..<SampleCount]"]) simp
qed

lemma piecewise_integral_clip:
  assumes "sorted_wrt (<) ws" "length ws = count"
  shows "piecewise_integral ws vs count (max p (ws ! 0)) (min q (ws ! (count - 1)))
         = piecewise_integral ws vs count p q"
proof -
  have "clipped_integral ws vs (max p (ws ! 0)) (min q (ws ! (count - 1))) j
        = clipped_integral ws vs p q j" if "j \<in> set [0..<count - 1]" for j
  proof -
    from that have j: "j + 1 \<le> count - 1" "count - 1 < length ws"
      using assms by auto
    have "ws ! 0 \<le> ws ! j"
      using assms j by (intro increasing_nth_le) auto
    moreover have "ws ! (j + 1) \<le> ws ! (count - 1)"
      using assms j by (intro increasing_nth_le) auto
    ultimately have "max (max p (ws ! 0)) (ws ! j) = max p (ws ! j)"
      and "min (min q (ws ! (count - 1))) (ws ! (j + 1)) = min q (ws ! (j + 1))"
      by linarith+
    then show ?thesis
      by (simp add: clipped_integral_def)
  qed
  then show ?thesis
    unfolding piecewise_integral_def by (intro arg_cong [of _ _ sum_list] map_cong refl)
qed

lemma linear_on_segment_endpoints:
  assumes "ws ! i \<noteq> ws ! (i + 1)"
  shows "linear_on_segment ws vs i (ws ! i) = vs ! i"
    and "linear_on_segment ws vs i (ws ! (i + 1)) = vs ! (i + 1)"
  using assms by (simp_all add: linear_on_segment_def)

lemma assert_increasing_fails:
  assumes "length ws = count" "i + 1 < count" "\<not> ws ! i < ws ! (i + 1)" "j \<le> i"
  shows "assert_increasing ws count j = Inl AssertionFailed"
  using assms
proof (induction ws count j rule: assert_increasing.induct)
  case (1 ws count j)
  have inside: "j + 1 < count"
    using "1.prems" by simp
  have r0: "rd ws j = Inr (ws ! j)" and r1: "rd ws (j + 1) = Inr (ws ! (j + 1))"
    using inside "1.prems" by (simp_all add: rd_in_range)
  show ?case
  proof (cases "ws ! j < ws ! (j + 1)")
    case False
    then show ?thesis
      using inside r0 r1 by (subst assert_increasing.simps) simp
  next
    case True
    with "1.prems" have "j \<noteq> i" by auto
    with "1.prems" have "j + 1 \<le> i" by simp
    then have "assert_increasing ws count (j + 1) = Inl AssertionFailed"
      using "1.IH" [OF inside r0 r1 True "1.prems"(1-3)] by simp
    then show ?thesis
      using inside r0 r1 True by (subst assert_increasing.simps) simp
  qed
qed

subsection \<open>The integral of the specification\<close>

text \<open>\<open>piecewise_integral\<close> is the integral of the interpolant \<open>piecewise_linear\<close>: it
  is additive in the interval, on a single segment it is the area of the trapezoid under
  the straight line, and as a function of its upper bound it is an antiderivative of
  \<open>piecewise_linear\<close> that vanishes at the lower bound.\<close>

lemma segment_integral_split:
  "segment_integral ws vs i p q + segment_integral ws vs i q r = segment_integral ws vs i p r"
  by (simp add: segment_integral_def)

lemma segment_integral_empty: "segment_integral ws vs i p p = 0"
  by (simp add: segment_integral_def)

lemma clipped_integral_disjoint:
  assumes "min q (ws ! (j + 1)) \<le> max p (ws ! j)"
  shows "clipped_integral ws vs p q j = 0"
proof -
  have "\<not> max p (ws ! j) < min q (ws ! (j + 1))"
    using assms by (simp only: not_less)
  then show ?thesis
    unfolding clipped_integral_def Let_def by (rule if_not_P)
qed

lemma clipped_integral_additive:
  assumes "p \<le> q" "q \<le> r" "ws ! i \<le> ws ! (i + 1)"
  shows "clipped_integral ws vs p q i + clipped_integral ws vs q r i
         = clipped_integral ws vs p r i"
proof -
  define a where "a = ws ! i"
  define b where "b = ws ! (i + 1)"
  consider "q \<le> a" | "b \<le> q" | "a < q" "q < b"
    by linarith
  then show ?thesis
  proof cases
    case 1
    then have "min q (ws ! (i + 1)) \<le> max p (ws ! i)"
      unfolding a_def by linarith
    then have "clipped_integral ws vs p q i = 0"
      by (rule clipped_integral_disjoint)
    moreover have "max p (ws ! i) = max q (ws ! i)"
      using 1 assms(1) unfolding a_def by linarith
    then have "clipped_integral ws vs p r i = clipped_integral ws vs q r i"
      by (simp add: clipped_integral_def)
    ultimately show ?thesis by simp
  next
    case 2
    then have "min r (ws ! (i + 1)) \<le> max q (ws ! i)"
      unfolding b_def by linarith
    then have "clipped_integral ws vs q r i = 0"
      by (rule clipped_integral_disjoint)
    moreover have "min q (ws ! (i + 1)) = min r (ws ! (i + 1))"
      using 2 assms(2) unfolding b_def by linarith
    then have "clipped_integral ws vs p q i = clipped_integral ws vs p r i"
      by (simp add: clipped_integral_def)
    ultimately show ?thesis by simp
  next
    case 3
    have mid: "min q (ws ! (i + 1)) = q" "max q (ws ! i) = q"
      using 3 unfolding a_def b_def by linarith+
    have "max p (ws ! i) \<le> min q (ws ! (i + 1))"
      using 3 assms unfolding a_def b_def by linarith
    then have left: "clipped_integral ws vs p q i = segment_integral ws vs i (max p (ws ! i)) q"
      using clipped_integral_inside [of p ws i q vs] by (simp only: mid)
    have "max q (ws ! i) \<le> min r (ws ! (i + 1))"
      using 3 assms unfolding a_def b_def by linarith
    then have right: "clipped_integral ws vs q r i
                      = segment_integral ws vs i q (min r (ws ! (i + 1)))"
      using clipped_integral_inside [of q ws i r vs] by (simp only: mid)
    have "max p (ws ! i) \<le> min r (ws ! (i + 1))"
      using 3 assms unfolding a_def b_def by linarith
    then have "clipped_integral ws vs p r i
               = segment_integral ws vs i (max p (ws ! i)) (min r (ws ! (i + 1)))"
      by (rule clipped_integral_inside)
    then show ?thesis
      by (simp only: left right segment_integral_split)
  qed
qed

lemma piecewise_integral_additive:
  assumes "sorted_wrt (<) ws" "length ws = count" "p \<le> q" "q \<le> r"
  shows "piecewise_integral ws vs count p q + piecewise_integral ws vs count q r
         = piecewise_integral ws vs count p r"
proof -
  have "clipped_integral ws vs p q i + clipped_integral ws vs q r i
        = clipped_integral ws vs p r i" if "i \<in> set [0..<count - 1]" for i
  proof -
    have "ws ! i \<le> ws ! (i + 1)"
      using that assms(1,2) by (intro increasing_nth_le) auto
    then show ?thesis
      using assms(3,4) by (rule clipped_integral_additive [rotated 2])
  qed
  then have "(\<Sum>i\<leftarrow>[0..<count - 1]. clipped_integral ws vs p q i + clipped_integral ws vs q r i)
             = (\<Sum>i\<leftarrow>[0..<count - 1]. clipped_integral ws vs p r i)"
    by (intro arg_cong [of _ _ sum_list] map_cong refl)
  then show ?thesis
    by (simp add: piecewise_integral_def sum_list_addf)
qed

lemma piecewise_integral_within_segment:
  assumes "sorted_wrt (<) ws" "length ws = count" "i + 1 < count"
    and "ws ! i \<le> p" "p \<le> q" "q \<le> ws ! (i + 1)"
  shows "piecewise_integral ws vs count p q = segment_integral ws vs i p q"
    and "piecewise_integral ws vs count p q
         = (q - p) * (linear_on_segment ws vs i p + linear_on_segment ws vs i q) / 2"
proof -
  have other: "clipped_integral ws vs p q j = 0" if "j \<in> set [0..<count - 1]" "j \<noteq> i" for j
  proof (cases "j < i")
    case True
    then have "ws ! (j + 1) \<le> ws ! i"
      using assms(1-3) by (intro increasing_nth_le) auto
    then have "min q (ws ! (j + 1)) \<le> max p (ws ! j)"
      using assms(4) by linarith
    then show ?thesis
      by (rule clipped_integral_disjoint)
  next
    case False
    with that have "i + 1 \<le> j" "j < length ws"
      using assms(2) by auto
    then have "ws ! (i + 1) \<le> ws ! j"
      using assms(1) by (intro increasing_nth_le) auto
    then have "min q (ws ! (j + 1)) \<le> max p (ws ! j)"
      using assms(6) by linarith
    then show ?thesis
      by (rule clipped_integral_disjoint)
  qed
  have here: "clipped_integral ws vs p q i = segment_integral ws vs i p q"
  proof -
    have "max p (ws ! i) = p" "min q (ws ! (i + 1)) = q"
      using assms(4,6) by simp_all
    then show ?thesis
      using assms(5) by (cases "p = q") (simp_all add: clipped_integral_def segment_integral_empty)
  qed
  have split: "[0..<count - 1] = [0..<i] @ i # [i + 1..<count - 1]"
    using assms(3) upt_add_eq_append [of 0 i "count - 1 - i"] 
    by (simp add: upt_conv_Cons)
  have "(\<Sum>j\<leftarrow>[0..<i]. clipped_integral ws vs p q j) = 0"
    using assms(3) by (intro sum_list_map_zero other) auto
  moreover have "(\<Sum>j\<leftarrow>[i + 1..<count - 1]. clipped_integral ws vs p q j) = 0"
    by (intro sum_list_map_zero other) auto
  ultimately show first: "piecewise_integral ws vs count p q = segment_integral ws vs i p q"
    unfolding piecewise_integral_def by (subst split) (simp add: here)
  have "ws ! i < ws ! (i + 1)"
    using assms(1-3) by (intro increasing_nth) auto
  then show "piecewise_integral ws vs count p q
         = (q - p) * (linear_on_segment ws vs i p + linear_on_segment ws vs i q) / 2"
    using first trapezoid_exact [of ws i vs p q] by (simp add: mult.commute)
qed

lemma piecewise_integral_deriv:
  assumes "sorted_wrt (<) ws" "length ws = count" "i + 1 < count"
    and "ws ! i < l" "l < ws ! (i + 1)"
  shows "((\<lambda>u. piecewise_integral ws vs count (ws ! 0) u)
            has_real_derivative linear_on_segment ws vs i l) (at l)"
proof -
  define C where "C = piecewise_integral ws vs count (ws ! 0) (ws ! i)
                       - segment_primitive ws vs i (ws ! i)"
  have low: "ws ! 0 \<le> ws ! i"
    using assms(1-3) by (intro increasing_nth_le) auto
  have near: "piecewise_integral ws vs count (ws ! 0) u = C + segment_primitive ws vs i u"
    if "u \<in> {ws ! i<..<ws ! (i + 1)}" for u
  proof -
    have "piecewise_integral ws vs count (ws ! 0) u
          = piecewise_integral ws vs count (ws ! 0) (ws ! i)
            + piecewise_integral ws vs count (ws ! i) u"
      using that low assms(1,2) piecewise_integral_additive [of ws count "ws ! 0" "ws ! i" u vs]
      by simp
    also have "piecewise_integral ws vs count (ws ! i) u = segment_integral ws vs i (ws ! i) u"
      using that assms(1-3) by (intro piecewise_integral_within_segment) auto
    finally show ?thesis
      by (simp add: C_def segment_integral_def)
  qed
  have "eventually (\<lambda>u. piecewise_integral ws vs count (ws ! 0) u
                         = C + segment_primitive ws vs i u) (nhds l)"
    unfolding eventually_nhds
    using assms(4,5) near by (intro exI [of _ "{ws ! i<..<ws ! (i + 1)}"]) auto
  moreover have "((\<lambda>u. C + segment_primitive ws vs i u)
                    has_real_derivative linear_on_segment ws vs i l) (at l)"
    using segment_primitive_deriv [of ws i vs l] assms(4,5)
    by (auto intro!: derivative_eq_intros)
  ultimately show ?thesis
    by (subst DERIV_cong_ev [OF refl _ refl]) auto
qed

lemma piecewise_integral_on_segment:
  assumes "sorted_wrt (<) ws" "length ws = count" "i + 1 < count"
    and "ws ! i \<le> u" "u \<le> ws ! (i + 1)"
  shows "piecewise_integral ws vs count (ws ! 0) u
         = piecewise_integral ws vs count (ws ! 0) (ws ! i)
           - segment_primitive ws vs i (ws ! i) + segment_primitive ws vs i u"
proof -
  have low: "ws ! 0 \<le> ws ! i"
    using assms(1-3) by (intro increasing_nth_le) auto
  have "piecewise_integral ws vs count (ws ! 0) u
        = piecewise_integral ws vs count (ws ! 0) (ws ! i)
          + piecewise_integral ws vs count (ws ! i) u"
    using assms(1,2,4) low piecewise_integral_additive [of ws count "ws ! 0" "ws ! i" u vs]
    by simp
  also have "piecewise_integral ws vs count (ws ! i) u = segment_integral ws vs i (ws ! i) u"
    using assms by (intro piecewise_integral_within_segment) auto
  finally show ?thesis
    by (simp add: segment_integral_def)
qed

lemma derivative_from_both_sides:
  fixes G :: "real \<Rightarrow> real"
  assumes "(G has_real_derivative D) (at_left l)" "(G has_real_derivative D) (at_right l)"
  shows "(G has_real_derivative D) (at l)"
  using assms unfolding has_field_derivative_iff by (rule filterlim_split_at)

lemma piecewise_integral_deriv_at_sample:
  assumes "sorted_wrt (<) ws" "length ws = count" "0 < i" "i + 1 < count"
  shows "((\<lambda>u. piecewise_integral ws vs count (ws ! 0) u)
            has_real_derivative vs ! i) (at (ws ! i))"
proof (rule derivative_from_both_sides)
  let ?G = "\<lambda>u. piecewise_integral ws vs count (ws ! 0) u"
  obtain k where k: "i = k + 1"
    using assms(3) by (cases i) auto
  have below: "ws ! k < ws ! i" and above: "ws ! i < ws ! (i + 1)"
    using assms(1,2,4) k by (auto intro!: increasing_nth)
  define cl where "cl = ?G (ws ! k) - segment_primitive ws vs k (ws ! k)"
  define cr where "cr = ?G (ws ! i) - segment_primitive ws vs i (ws ! i)"
  have left: "?G u = cl + segment_primitive ws vs k u" if "ws ! k \<le> u" "u \<le> ws ! i" for u
    using that assms(1,2,4) k piecewise_integral_on_segment [of ws count k u vs]
    by (simp add: cl_def)
  have right: "?G u = cr + segment_primitive ws vs i u" if "ws ! i \<le> u" "u \<le> ws ! (i + 1)" for u
    using that assms(1,2,4) piecewise_integral_on_segment [of ws count i u vs]
    by (simp add: cr_def)
  have "((\<lambda>u. cl + segment_primitive ws vs k u) has_real_derivative vs ! i) (at (ws ! i))"
    using segment_primitive_deriv [of ws k vs "ws ! i"] below k
      linear_on_segment_endpoints(2) [of ws k vs]
    by (auto intro!: derivative_eq_intros)
  then have "((\<lambda>u. cl + segment_primitive ws vs k u) has_real_derivative vs ! i)
               (at_left (ws ! i))"
    by (rule has_field_derivative_at_within)
  moreover have "eventually (\<lambda>u. ?G u = cl + segment_primitive ws vs k u) (at_left (ws ! i))"
    unfolding eventually_at_left_field
    using below left by (intro exI [of _ "ws ! k"]) auto
  moreover have "?G (ws ! i) = cl + segment_primitive ws vs k (ws ! i)"
    using left below by simp
  ultimately show "(?G has_real_derivative vs ! i) (at_left (ws ! i))"
    by (subst has_field_derivative_cong_eventually) auto
  have "((\<lambda>u. cr + segment_primitive ws vs i u) has_real_derivative vs ! i) (at (ws ! i))"
    using segment_primitive_deriv [of ws i vs "ws ! i"] above
      linear_on_segment_endpoints(1) [of ws i vs]
    by (auto intro!: derivative_eq_intros)
  then have "((\<lambda>u. cr + segment_primitive ws vs i u) has_real_derivative vs ! i)
               (at_right (ws ! i))"
    by (rule has_field_derivative_at_within)
  moreover have "eventually (\<lambda>u. ?G u = cr + segment_primitive ws vs i u) (at_right (ws ! i))"
    unfolding eventually_at_right_field
    using above right by (intro exI [of _ "ws ! (i + 1)"]) auto
  moreover have "?G (ws ! i) = cr + segment_primitive ws vs i (ws ! i)"
    using right above by simp
  ultimately show "(?G has_real_derivative vs ! i) (at_right (ws ! i))"
    by (subst has_field_derivative_cong_eventually) auto
qed

lemma first_segment_reaching:
  fixes ws :: "real list"
  assumes "length ws = count" "2 \<le> count" "l \<le> ws ! (count - 1)"
  obtains j where "find (\<lambda>i. l \<le> ws ! (i + 1)) [0..<count - 1] = Some j"
    "j + 1 < count" "l \<le> ws ! (j + 1)" "\<And>k. k < j \<Longrightarrow> ws ! (k + 1) < l"
proof -
  have "count - 2 + 1 = count - 1"
    using assms(2) by simp
  then have "count - 2 \<in> set [0..<count - 1]" "l \<le> ws ! (count - 2 + 1)"
    using assms by simp_all
  then have "find (\<lambda>i. l \<le> ws ! (i + 1)) [0..<count - 1] \<noteq> None"
    unfolding find_None_iff by blast
  then obtain j where j: "find (\<lambda>i. l \<le> ws ! (i + 1)) [0..<count - 1] = Some j"
    by auto
  then obtain n where n: "n < length [0..<count - 1]" "l \<le> ws ! ([0..<count - 1] ! n + 1)"
    "j = [0..<count - 1] ! n" "\<forall>m<n. \<not> l \<le> ws ! ([0..<count - 1] ! m + 1)"
    unfolding find_Some_iff by blast
  then have "j = n" "j < count - 1"
    by simp_all
  moreover have "ws ! (k + 1) < l" if "k < j" for k
    using that n \<open>j = n\<close> by (auto simp: not_le)
  ultimately show ?thesis
    using that [OF j] n by auto
qed

lemma piecewise_linear_on_segment:
  assumes "sorted_wrt (<) ws" "length ws = count" "i + 1 < count"
    and "ws ! i \<le> l" "l \<le> ws ! (i + 1)"
  shows "piecewise_linear ws vs count l = linear_on_segment ws vs i l"
proof -
  have "ws ! (i + 1) \<le> ws ! (count - 1)"
    using assms(1-3) by (intro increasing_nth_le) auto
  then have "l \<le> ws ! (count - 1)"
    using assms(5) by simp
  then obtain j where j: "find (\<lambda>i. l \<le> ws ! (i + 1)) [0..<count - 1] = Some j"
    "j + 1 < count" "l \<le> ws ! (j + 1)" "\<And>k. k < j \<Longrightarrow> ws ! (k + 1) < l"
    using assms(2,3) first_segment_reaching [of ws count l] by auto
  have pl: "piecewise_linear ws vs count l = linear_on_segment ws vs j l"
    unfolding piecewise_linear_def j(1) by simp
  have "j \<le> i"
    using j(4) [of i] assms(5) by (auto simp: not_less [symmetric])
  show ?thesis
  proof (cases "j = i")
    case True
    then show ?thesis using pl by simp
  next
    case False
    with \<open>j \<le> i\<close> have "j + 1 \<le> i" by simp
    then have "ws ! (j + 1) \<le> ws ! i"
      using assms(1-3) by (intro increasing_nth_le) auto
    with j(3) assms(4) have eq: "l = ws ! (j + 1)" "l = ws ! i"
      by simp_all
    have "j + 1 = i"
    proof (rule ccontr)
      assume "j + 1 \<noteq> i"
      with \<open>j + 1 \<le> i\<close> have "ws ! (j + 1) < ws ! i"
        using assms(1-3) by (intro increasing_nth) auto
      with eq show False by simp
    qed
    have "ws ! j < ws ! (j + 1)" "ws ! i < ws ! (i + 1)"
      using assms(1-3) j(2) by (auto intro!: increasing_nth)
    then have "linear_on_segment ws vs j (ws ! (j + 1)) = vs ! (j + 1)"
      "linear_on_segment ws vs i (ws ! i) = vs ! i"
      using linear_on_segment_endpoints [of ws j vs] linear_on_segment_endpoints [of ws i vs]
      by simp_all
    then show ?thesis
      using pl eq \<open>j + 1 = i\<close> by metis
  qed
qed

lemma piecewise_linear_at_sample:
  assumes "sorted_wrt (<) ws" "length ws = count" "length vs = count" "2 \<le> count" "i < count"
  shows "piecewise_linear ws vs count (ws ! i) = vs ! i"
proof (cases "i + 1 < count")
  case True
  then have "ws ! i < ws ! (i + 1)"
    using assms(1,2) by (intro increasing_nth) auto
  then show ?thesis
    using True assms piecewise_linear_on_segment [of ws count i "ws ! i" vs]
      linear_on_segment_endpoints(1) [of ws i vs]
    by simp
next
  case False
  with assms obtain k where k: "i = k + 1" "k + 1 < count"
    by (cases i) auto
  then have "ws ! k < ws ! (k + 1)"
    using assms(1,2) by (intro increasing_nth) auto
  then show ?thesis
    using k assms piecewise_linear_on_segment [of ws count k "ws ! (k + 1)" vs]
      linear_on_segment_endpoints(2) [of ws k vs]
    by simp
qed

lemma piecewise_integral_antiderivative:
  assumes "sorted_wrt (<) ws" "length ws = count"
    and "ws ! 0 < l" "l < ws ! (count - 1)"
  shows "((\<lambda>u. piecewise_integral ws vs count (ws ! 0) u)
            has_real_derivative piecewise_linear ws vs count l) (at l)"
proof -
  have two: "2 \<le> count"
  proof (rule ccontr)
    assume "\<not> 2 \<le> count"
    then have "count - 1 = 0" by simp
    with assms(3,4) show False by simp
  qed
  obtain j where j: "j + 1 < count" "l \<le> ws ! (j + 1)" "\<And>k. k < j \<Longrightarrow> ws ! (k + 1) < l"
    using assms(2,4) two first_segment_reaching [of ws count l] by (metis less_imp_le)
  have lower: "ws ! j < l"
  proof (cases j)
    case 0
    then show ?thesis using assms(3) by simp
  next
    case (Suc k)
    then show ?thesis using j(3) [of k] by simp
  qed
  have on: "piecewise_linear ws vs count l = linear_on_segment ws vs j l"
    using assms(1,2) j(1,2) lower by (intro piecewise_linear_on_segment) auto
  show ?thesis
  proof (cases "l = ws ! (j + 1)")
    case False
    with j(2) have "l < ws ! (j + 1)" by simp
    then show ?thesis
      using piecewise_integral_deriv [OF assms(1,2) j(1) lower] on by simp
  next
    case True
    have "j + 1 \<noteq> count - 1"
      using True assms(4) by auto
    with j(1) have inner: "0 < j + 1" "j + 1 + 1 < count"
      by simp_all
    have "ws ! j < ws ! (j + 1)"
      using assms(1,2) j(1) by (intro increasing_nth) auto
    then have "piecewise_linear ws vs count l = vs ! (j + 1)"
      using on True linear_on_segment_endpoints(2) [of ws j vs] by simp
    then show ?thesis
      using piecewise_integral_deriv_at_sample [OF assms(1,2) inner, of vs] True by simp
  qed
qed

lemma piecewise_integral_empty: "piecewise_integral ws vs count p p = 0"
proof -
  have "clipped_integral ws vs p p i = 0" for i
    by (rule clipped_integral_disjoint) linarith
  then show ?thesis
    by (simp add: piecewise_integral_def sum_list_map_zero)
qed

lemma piecewise_integral_difference:
  assumes "sorted_wrt (<) ws" "length ws = count" "ws ! 0 \<le> p" "p \<le> q"
  shows "piecewise_integral ws vs count p q
         = piecewise_integral ws vs count (ws ! 0) q - piecewise_integral ws vs count (ws ! 0) p"
  using piecewise_integral_additive [OF assms(1-3) assms(4), of vs] by simp

subsection \<open>Tables of constant value\<close>

lemma clipped_integral_constant:
  assumes "vs ! j = v" "vs ! (j + 1) = v"
  shows "clipped_integral ws vs p q j = v * max 0 (min q (ws ! (j + 1)) - max p (ws ! j))"
proof -
  define a where "a = max p (ws ! j)"
  define b where "b = min q (ws ! (j + 1))"
  have "segment_integral ws vs j a b = v * (b - a)"
    using assms by (simp add: segment_integral_def segment_primitive_def algebra_simps)
  moreover have "max 0 (b - a) = (if a < b then b - a else 0)"
    by simp
  ultimately show ?thesis
    by (simp add: clipped_integral_def Let_def a_def b_def)
qed

lemma covered_length_sum:
  fixes ws :: "real list"
  assumes "sorted_wrt (<) ws" "k < length ws" "ws ! 0 \<le> p" "p \<le> q"
  shows "(\<Sum>j\<leftarrow>[0..<k]. max 0 (min q (ws ! (j + 1)) - max p (ws ! j)))
         = max 0 (min q (ws ! k) - p)"
  using assms(2)
proof (induction k)
  case 0
  have "min q (ws ! 0) - p \<le> 0"
    using assms(3) by linarith
  then show ?case by simp
next
  case (Suc k)
  have "ws ! k < ws ! (k + 1)"
    using assms(1) Suc.prems by (intro increasing_nth) auto
  moreover have "(\<Sum>j\<leftarrow>[0..<k]. max 0 (min q (ws ! (j + 1)) - max p (ws ! j)))
                 = max 0 (min q (ws ! k) - p)"
    using Suc by simp
  ultimately show ?case
    using assms(4) by (simp add: max_def min_def)
qed

lemma piecewise_integral_constant:
  assumes "1 \<le> count" "length ws = count" "sorted_wrt (<) ws"
    and "ws ! 0 \<le> p" "p \<le> q" "q \<le> ws ! (count - 1)"
  shows "piecewise_integral ws (replicate count v) count p q = v * (q - p)"
proof -
  have "clipped_integral ws (replicate count v) p q j
        = v * max 0 (min q (ws ! (j + 1)) - max p (ws ! j))" if "j \<in> set [0..<count - 1]" for j
    using that by (intro clipped_integral_constant) auto
  then have "piecewise_integral ws (replicate count v) count p q
        = (\<Sum>j\<leftarrow>[0..<count - 1]. v * max 0 (min q (ws ! (j + 1)) - max p (ws ! j)))"
    unfolding piecewise_integral_def by (intro arg_cong [of _ _ sum_list] map_cong refl)
  also have "\<dots> = v * (\<Sum>j\<leftarrow>[0..<count - 1]. max 0 (min q (ws ! (j + 1)) - max p (ws ! j)))"
    by (simp add: sum_list_const_mult)
  also have "\<dots> = v * max 0 (min q (ws ! (count - 1)) - p)"
    using assms by (subst covered_length_sum) auto
  also have "\<dots> = v * (q - p)"
    using assms by simp
  finally show ?thesis .
qed

lemma averageSamples_constant:
  assumes "1 \<le> count" "length ws = count" "sorted_wrt (<) ws"
    and "lB < lE" "ws ! 0 \<le> lB" "lE \<le> ws ! (count - 1)"
  shows "averageSamples ws (replicate count v) count lB lE = Inr v"
proof (cases "count = 1")
  case True
  then show ?thesis
    using averageSamples_single [of "replicate count v" ws lB lE] by simp
next
  case False
  with assms have two: "2 \<le> count" by simp
  have "ws ! 0 < lE" "lB < ws ! (count - 1)"
    using assms by simp_all
  then have "averageSamples ws (replicate count v) count lB lE
             = Inr (piecewise_integral ws (replicate count v) count lB lE / (lE - lB))"
    using two assms by (intro averageSamples_integral) auto
  then show ?thesis
    using assms by (simp add: piecewise_integral_constant)
qed

lemma fromSamples_constant:
  assumes "1 \<le> count" "length ws = count" "sorted_wrt (<) ws"
    and "ws ! 0 \<le> real WavelengthBegin" "real WavelengthEnd \<le> ws ! (count - 1)"
  shows "fromSamples ws (replicate count v) count = Inr (replicate SampleCount v)"
proof -
  have "averageSamples ws (replicate count v) count (bin_bound j)
          (bin_bound (j + 1)) = Inr v" if "j < SampleCount" for j
    using assms bin_bound_range [OF that] bin_bound_increasing [OF that]
    by (intro averageSamples_constant) auto
  then have "fromSamples ws (replicate count v) count = Inr (map (\<lambda>j. v) [0..<SampleCount])"
    using assms by (intro fromSamples_result) auto
  then show ?thesis
    by (simp add: map_replicate_const)
qed

subsection \<open>The statics, toXYZ and toRGB\<close>

lemma statics_ok_init: "statics_ok cie statics_init"
  by (simp add: statics_ok_def statics_init_def)

lemma acquireIntegral_loop_sum:
  assumes "length ys = sampleCount" "i \<le> sampleCount"
  shows "acquireIntegral_loop ys i r = Inr (r + (\<Sum>j = i..<sampleCount. ys ! j))"
  using assms
proof (induction ys i r rule: acquireIntegral_loop.induct)
  case (1 ys i r)
  show ?case
  proof (cases "i < sampleCount")
    case False
    then show ?thesis by (subst acquireIntegral_loop.simps) simp
  next
    case True
    have rd: "rd ys i = Inr (ys ! i)"
      using True "1.prems" by (simp add: rd_in_range)
    have "acquireIntegral_loop ys (i + 1) (r + ys ! i)
          = Inr (r + ys ! i + (\<Sum>j = i + 1..<sampleCount. ys ! j))"
      using "1.IH" [OF True rd "1.prems"(1)] True by simp
    then show ?thesis
      using True rd by (subst acquireIntegral_loop.simps) (simp add: sum.atLeast_Suc_lessThan)
  qed
qed

lemma acquireIntegral_sum:
  assumes "length (CIE_y cie) = sampleCount"
  shows "acquireIntegral cie = Inr (sum_list (CIE_y cie))"
  using assms acquireIntegral_loop_sum [of "CIE_y cie" 0 0]
  by (simp add: acquireIntegral_def sum_list_sum_nth)

lemma yIntegral_call:
  assumes "statics_ok cie st" "acquireIntegral cie = Inr yi"
  shows "yIntegral cie st = Inr (yi, st\<lparr>yIntegral_static := Some yi\<rparr>)"
    and "statics_ok cie (st\<lparr>yIntegral_static := Some yi\<rparr>)"
  using assms by (auto simp: yIntegral_def statics_ok_def split: option.splits)

lemma X_call:
  assumes "statics_ok cie st"
    "fromSamples (CIE_wavelengths cie) (CIE_x cie) sampleCount = Inr sX"
  shows "X cie st = Inr (sX, st\<lparr>X_static := Some sX\<rparr>)"
    and "statics_ok cie (st\<lparr>X_static := Some sX\<rparr>)"
  using assms by (auto simp: X_def statics_ok_def split: option.splits)

lemma Y_call:
  assumes "statics_ok cie st"
    "fromSamples (CIE_wavelengths cie) (CIE_y cie) sampleCount = Inr sY"
  shows "Y cie st = Inr (sY, st\<lparr>Y_static := Some sY\<rparr>)"
    and "statics_ok cie (st\<lparr>Y_static := Some sY\<rparr>)"
  using assms by (auto simp: Y_def statics_ok_def split: option.splits)

lemma Z_call:
  assumes "statics_ok cie st"
    "fromSamples (CIE_wavelengths cie) (CIE_z cie) sampleCount = Inr sZ"
  shows "Z cie st = Inr (sZ, st\<lparr>Z_static := Some sZ\<rparr>)"
    and "statics_ok cie (st\<lparr>Z_static := Some sZ\<rparr>)"
  using assms by (auto simp: Z_def statics_ok_def split: option.splits)

lemma toXYZ_loop_sums:
  assumes "length sX = SampleCount" "length sY = SampleCount" "length sZ = SampleCount"
    "length s = SampleCount" "i \<le> SampleCount"
  shows "toXYZ_loop sX sY sZ s i (x, y, z)
         = Inr (x + (\<Sum>j = i..<SampleCount. sX ! j * s ! j),
                y + (\<Sum>j = i..<SampleCount. sY ! j * s ! j),
                z + (\<Sum>j = i..<SampleCount. sZ ! j * s ! j))"
  using assms
proof (induction sX sY sZ s i "(x, y, z)" arbitrary: x y z rule: toXYZ_loop.induct)
  case (1 sX sY sZ s i)
  show ?case
  proof (cases "i < SampleCount")
    case False
    then show ?thesis by (subst toXYZ_loop.simps) simp
  next
    case True
    have rds: "rd s i = Inr (s ! i)" "rd sX i = Inr (sX ! i)" "rd sY i = Inr (sY ! i)"
      "rd sZ i = Inr (sZ ! i)"
      using True "1.prems" by (simp_all add: rd_in_range)
    have "toXYZ_loop sX sY sZ s (i + 1) (x + sX ! i * s ! i, y + sY ! i * s ! i, z + sZ ! i * s ! i)
          = Inr (x + sX ! i * s ! i + (\<Sum>j = i + 1..<SampleCount. sX ! j * s ! j),
                 y + sY ! i * s ! i + (\<Sum>j = i + 1..<SampleCount. sY ! j * s ! j),
                 z + sZ ! i * s ! i + (\<Sum>j = i + 1..<SampleCount. sZ ! j * s ! j))"
      using "1.hyps" [OF True rds refl refl "1.prems"(1-4)] True by simp
    then show ?thesis
      using True rds by (subst toXYZ_loop.simps) (simp add: sum.atLeast_Suc_lessThan)
  qed
qed

lemma fromSamples_length:
  assumes "1 \<le> count" "length ws = count" "length vs = count" "sorted_wrt (<) ws"
    "fromSamples ws vs count = Inr s"
  shows "length s = SampleCount"
  using fromSamples_bins [OF assms(1-4)] assms(5) by auto

lemma CIE_singletons:
  assumes "CIE_wellformed cie"
  obtains sX sY sZ where
    "fromSamples (CIE_wavelengths cie) (CIE_x cie) sampleCount = Inr sX"
    "fromSamples (CIE_wavelengths cie) (CIE_y cie) sampleCount = Inr sY"
    "fromSamples (CIE_wavelengths cie) (CIE_z cie) sampleCount = Inr sZ"
    "length sX = SampleCount" "length sY = SampleCount" "length sZ = SampleCount"
proof -
  have one: "1 \<le> sampleCount" by (simp add: sampleCount_def)
  have wf: "length (CIE_wavelengths cie) = sampleCount" "sorted_wrt (<) (CIE_wavelengths cie)"
    "length (CIE_x cie) = sampleCount" "length (CIE_y cie) = sampleCount"
    "length (CIE_z cie) = sampleCount"
    using assms by (simp_all add: CIE_wellformed_def)
  obtain sX where "fromSamples (CIE_wavelengths cie) (CIE_x cie) sampleCount = Inr sX"
    "length sX = SampleCount"
    using fromSamples_bins [OF one wf(1) wf(3) wf(2)] by auto
  moreover obtain sY where "fromSamples (CIE_wavelengths cie) (CIE_y cie) sampleCount = Inr sY"
    "length sY = SampleCount"
    using fromSamples_bins [OF one wf(1) wf(4) wf(2)] by auto
  moreover obtain sZ where "fromSamples (CIE_wavelengths cie) (CIE_z cie) sampleCount = Inr sZ"
    "length sZ = SampleCount"
    using fromSamples_bins [OF one wf(1) wf(5) wf(2)] by auto
  ultimately show ?thesis
    using that by blast
qed

lemma statics_filled_ok:
  assumes "fromSamples (CIE_wavelengths cie) (CIE_x cie) sampleCount = Inr sX"
    "fromSamples (CIE_wavelengths cie) (CIE_y cie) sampleCount = Inr sY"
    "fromSamples (CIE_wavelengths cie) (CIE_z cie) sampleCount = Inr sZ"
    "acquireIntegral cie = Inr yi"
  shows "statics_ok cie (statics_filled st sX sY sZ yi)"
    and "X cie (statics_filled st sX sY sZ yi) = Inr (sX, statics_filled st sX sY sZ yi)"
    and "Y cie (statics_filled st sX sY sZ yi) = Inr (sY, statics_filled st sX sY sZ yi)"
    and "Z cie (statics_filled st sX sY sZ yi) = Inr (sZ, statics_filled st sX sY sZ yi)"
    and "yIntegral cie (statics_filled st sX sY sZ yi)
         = Inr (yi, statics_filled st sX sY sZ yi)"
  using assms
  by (simp_all add: statics_ok_def statics_filled_def X_def Y_def Z_def yIntegral_def)

lemma toXYZ_result:
  assumes "statics_ok cie st"
    and "fromSamples (CIE_wavelengths cie) (CIE_x cie) sampleCount = Inr sX"
    and "fromSamples (CIE_wavelengths cie) (CIE_y cie) sampleCount = Inr sY"
    and "fromSamples (CIE_wavelengths cie) (CIE_z cie) sampleCount = Inr sZ"
    and "length sX = SampleCount" "length sY = SampleCount" "length sZ = SampleCount"
    and "acquireIntegral cie = Inr yi" "yi \<noteq> 0"
    and "length s = SampleCount"
  shows "toXYZ cie st s
         = Inr (Float3
                 (weighted_sum s sX
                    * ((real WavelengthEnd - real WavelengthBegin) / (real SampleCount * yi)))
                 (weighted_sum s sY
                    * ((real WavelengthEnd - real WavelengthBegin) / (real SampleCount * yi)))
                 (weighted_sum s sZ
                    * ((real WavelengthEnd - real WavelengthBegin) / (real SampleCount * yi))),
                statics_filled st sX sY sZ yi)"
proof -
  let ?st1 = "st\<lparr>X_static := Some sX\<rparr>"
  let ?st2 = "?st1\<lparr>Y_static := Some sY\<rparr>"
  let ?st3 = "?st2\<lparr>Z_static := Some sZ\<rparr>"
  let ?st4 = "?st3\<lparr>yIntegral_static := Some yi\<rparr>"
  have x: "X cie st = Inr (sX, ?st1)" and ok1: "statics_ok cie ?st1"
    using X_call [OF assms(1,2)] by simp_all
  have y: "Y cie ?st1 = Inr (sY, ?st2)" and ok2: "statics_ok cie ?st2"
    using Y_call [OF ok1 assms(3)] by simp_all
  have z: "Z cie ?st2 = Inr (sZ, ?st3)" and ok3: "statics_ok cie ?st3"
    using Z_call [OF ok2 assms(4)] by simp_all
  have yint: "yIntegral cie ?st3 = Inr (yi, ?st4)"
    using yIntegral_call [OF ok3 assms(8)] by simp
  have loop: "toXYZ_loop sX sY sZ s 0 (0, 0, 0)
              = Inr (weighted_sum s sX, weighted_sum s sY, weighted_sum s sZ)"
    using toXYZ_loop_sums [OF assms(5-7) assms(10), of 0 0 0 0]
    by (simp add: weighted_sum_def lessThan_atLeast0 mult.commute)
  have nonzero: "real SampleCount * yi \<noteq> 0"
    using assms(9) by (simp add: SampleCount_def SpectralSampleCount_def)
  have "?st4 = statics_filled st sX sY sZ yi"
    by (simp add: statics_filled_def)
  then show ?thesis
    using x y z loop yint nonzero by (simp add: toXYZ_def fdiv_nonzero)
qed

lemma weighted_sum_linear:
  assumes "length s1 = SampleCount" "length s2 = SampleCount"
  shows "weighted_sum (map2 (\<lambda>u v. a * u + b * v) s1 s2) w
         = a * weighted_sum s1 w + b * weighted_sum s2 w"
proof -
  have "weighted_sum (map2 (\<lambda>u v. a * u + b * v) s1 s2) w
        = (\<Sum>i<SampleCount. a * (s1 ! i * w ! i) + b * (s2 ! i * w ! i))"
    unfolding weighted_sum_def using assms by (intro sum.cong refl) (simp add: algebra_simps)
  then show ?thesis
    by (simp add: weighted_sum_def sum.distrib sum_distrib_left)
qed

lemma weighted_sum_zero: "weighted_sum (replicate SampleCount 0) w = 0"
  by (simp add: weighted_sum_def)

lemma toXYZ_total:
  assumes "CIE_wellformed cie" "statics_ok cie st"
  obtains sX sY sZ yi where
    "length sX = SampleCount" "length sY = SampleCount" "length sZ = SampleCount"
    "yi = sum_list (CIE_y cie)"
    "statics_ok cie (statics_filled st sX sY sZ yi)"
    "X cie (statics_filled st sX sY sZ yi) = Inr (sX, statics_filled st sX sY sZ yi)"
    "Y cie (statics_filled st sX sY sZ yi) = Inr (sY, statics_filled st sX sY sZ yi)"
    "Z cie (statics_filled st sX sY sZ yi) = Inr (sZ, statics_filled st sX sY sZ yi)"
    "yIntegral cie (statics_filled st sX sY sZ yi) = Inr (yi, statics_filled st sX sY sZ yi)"
    "\<And>s. length s = SampleCount \<Longrightarrow>
       toXYZ cie st s
       = Inr (Float3
               (weighted_sum s sX
                  * ((real WavelengthEnd - real WavelengthBegin) / (real SampleCount * yi)))
               (weighted_sum s sY
                  * ((real WavelengthEnd - real WavelengthBegin) / (real SampleCount * yi)))
               (weighted_sum s sZ
                  * ((real WavelengthEnd - real WavelengthBegin) / (real SampleCount * yi))),
              statics_filled st sX sY sZ yi)"
proof -
  obtain sX sY sZ where singletons:
    "fromSamples (CIE_wavelengths cie) (CIE_x cie) sampleCount = Inr sX"
    "fromSamples (CIE_wavelengths cie) (CIE_y cie) sampleCount = Inr sY"
    "fromSamples (CIE_wavelengths cie) (CIE_z cie) sampleCount = Inr sZ"
    and lengths: "length sX = SampleCount" "length sY = SampleCount" "length sZ = SampleCount"
    using CIE_singletons [OF assms(1)] by blast
  define yi where "yi = sum_list (CIE_y cie)"
  have acq: "acquireIntegral cie = Inr yi" and nz: "yi \<noteq> 0"
    using assms(1) by (simp_all add: CIE_wellformed_def acquireIntegral_sum yi_def)
  show ?thesis
    using that [OF lengths yi_def statics_filled_ok [OF singletons acq, of st]]
      toXYZ_result [OF assms(2) singletons lengths acq nz]
    by blast
qed

lemma toRGB_of_toXYZ:
  assumes "toXYZ cie st s = Inr (xyz, st')"
  shows "toRGB cie st s
         = Inr (Float3
                 (3.240479 * Float3_a xyz - 1.537150 * Float3_b xyz - 0.498535 * Float3_c xyz)
                 (- 0.969256 * Float3_a xyz + 1.875991 * Float3_b xyz + 0.041556 * Float3_c xyz)
                 (0.055648 * Float3_a xyz - 0.204043 * Float3_b xyz + 1.057311 * Float3_c xyz),
                st')"
  using assms by (simp add: toRGB_def Let_def)

lemma example_CIE_wellformed: "CIE_wellformed example_CIE"
proof -
  have "real sampleCount \<noteq> 0"
    by (simp add: sampleCount_def)
  then show ?thesis
    by (simp add: CIE_wellformed_def example_CIE_def sorted_wrt_map sum_list_replicate)
qed

section \<open>The claims\<close>

text \<open>In the theorems a table is the pair of lists \<open>wavelengths\<close>, \<open>values\<close> with
  \<open>length wavelengths = count\<close> and \<open>length values = count\<close>; strictly increasing
  wavelengths are \<open>sorted_wrt (<) wavelengths\<close>. A call returns the value \<open>r\<close> when its
  model is \<open>Inr r\<close>.\<close>

subsection \<open>averageSamples\<close>

text \<open>C1: for a table with \<open>count \<ge> 2\<close>, strictly increasing wavelengths and
  \<open>lBegin < lEnd\<close>, when the query interval overlaps the covered range, that is when
  neither clamping case applies (\<open>wavelengths[0] < lEnd\<close> and
  \<open>lBegin < wavelengths[count-1]\<close>), \<open>averageSamples\<close> returns the integral of the
  piecewise-linear interpolant (\<open>piecewise_integral\<close>, the integral of
  \<open>piecewise_linear\<close>) over the intersection of \<open>[lBegin, lEnd)\<close> with the covered
  range, divided by the full requested width \<open>lEnd - lBegin\<close>. What lies outside the
  covered range adds nothing to the integral, and still counts in the width. At
  \<open>lBegin = wavelengths[count-1]\<close> the interval only touches the covered range, and the
  clamping case of C4 applies.\<close>

theorem averageSamples_is_clipped_integral_over_width:
  assumes "2 \<le> count" "length wavelengths = count" "length values = count"
    and "sorted_wrt (<) wavelengths"
    and "lBegin < lEnd"
    and "wavelengths ! 0 < lEnd" "lBegin < wavelengths ! (count - 1)"
  shows "averageSamples wavelengths values count lBegin lEnd
         = Inr (piecewise_integral wavelengths values count
                  (max lBegin (wavelengths ! 0)) (min lEnd (wavelengths ! (count - 1)))
                / (lEnd - lBegin))"
  using assms averageSamples_integral [of count wavelengths "values" lBegin lEnd]
    piecewise_integral_clip [of wavelengths count "values" lBegin lEnd]
  by simp

text \<open>The table \<open>(1, 10), (2, 20), (4, 0)\<close> queried on \<open>[0, 5)\<close>: the integral over the
  covered range \<open>[1, 4]\<close> is \<open>15 + 20 = 35\<close>, the width is \<open>5\<close>, the result \<open>7\<close>
  (extending the boundary values would give \<open>(10 + 35 + 0) / 5 = 9\<close>).\<close>

theorem averageSamples_is_clipped_integral_over_width_witness:
  "averageSamples [1, 2, 4] [10, 20, 0] 3 0 5 = Inr 7"
  using averageSamples_is_clipped_integral_over_width [of 3 "[1, 2, 4]" "[10, 20, 0]" 0 5]
  by (simp add: piecewise_integral_def clipped_integral_def segment_integral_def
      segment_primitive_def upt_rec numeral_2_eq_2 numeral_3_eq_3)

text \<open>C4: for a table with \<open>count \<ge> 1\<close> and strictly increasing wavelengths, and a
  query interval \<open>[lBegin, lEnd)\<close> with \<open>lBegin < lEnd\<close>: if the interval lies entirely
  before the first sample (\<open>lEnd \<le> wavelengths[0]\<close>) then \<open>averageSamples\<close> returns
  \<open>values[0]\<close>, and if it lies entirely after the last sample
  (\<open>lBegin \<ge> wavelengths[count-1]\<close>) then it returns \<open>values[count-1]\<close>. The first half
  holds whatever the order of \<open>lBegin\<close> and \<open>lEnd\<close>.\<close>

theorem averageSamples_edge_clamping:
  assumes "1 \<le> count" "length wavelengths = count" "length values = count"
    and "sorted_wrt (<) wavelengths"
  shows "(lEnd \<le> wavelengths ! 0 \<longrightarrow>
            averageSamples wavelengths values count lBegin lEnd = Inr (values ! 0))
       \<and> (lBegin < lEnd \<and> lBegin \<ge> wavelengths ! (count - 1) \<longrightarrow>
            averageSamples wavelengths values count lBegin lEnd = Inr (values ! (count - 1)))"
proof (cases "count = 1")
  case True
  then show ?thesis
    using assms averageSamples_single [of "values" wavelengths lBegin lEnd] by simp
next
  case False
  with assms have two: "2 \<le> count" by simp
  then have "wavelengths ! 0 < wavelengths ! (count - 1)"
    using assms by (intro increasing_nth) auto
  then have "wavelengths ! 0 < lEnd" if "lBegin < lEnd" "lBegin \<ge> wavelengths ! (count - 1)"
    using that by simp
  then show ?thesis
    using two assms averageSamples_left [of count wavelengths "values" lEnd lBegin]
      averageSamples_right [of count wavelengths "values" lEnd lBegin]
    by blast
qed

theorem averageSamples_edge_clamping_witness:
  "averageSamples [1, 2] [10, 20] 2 (-1) 0 = Inr 10
   \<and> averageSamples [1, 2] [10, 20] 2 3 4 = Inr 20"
  using averageSamples_edge_clamping [of 2 "[1, 2]" "[10, 20]" 0 "-1"]
    averageSamples_edge_clamping [of 2 "[1, 2]" "[10, 20]" 4 3]
  by simp

text \<open>C5: for a single-sample table (\<open>count = 1\<close>) \<open>averageSamples\<close> returns
  \<open>values[0]\<close>, whatever the wavelengths array and the interval bounds.\<close>

theorem averageSamples_single_sample:
  assumes "0 < length values"
  shows "averageSamples wavelengths values 1 lBegin lEnd = Inr (values ! 0)"
  using assms by (rule averageSamples_single)

theorem averageSamples_single_sample_witness:
  "averageSamples [] [7] 1 9 3 = Inr 7"
  using averageSamples_single_sample [of "[7]" "[]" 9 3] by simp

text \<open>C6: on the linear ramp with wavelengths \<open>[500, 600]\<close> and values \<open>[0, 100]\<close>, the
  query interval \<open>[500, 600)\<close> gives the trapezoid average \<open>50\<close>.\<close>

theorem averageSamples_linear_ramp:
  "averageSamples [500, 600] [0, 100] 2 500 600 = Inr 50"
  by (simp add: averageSamples_def rd_def fdiv_def advance.simps segments.simps
      segment_term_def interpolate_def)

text \<open>C10: for a table with \<open>count \<ge> 1\<close>, strictly increasing wavelengths and
  \<open>lBegin < lEnd\<close>, \<open>averageSamples\<close> returns a value: no read is out of bounds, no
  divisor is zero and no assertion fails. When the cursor loop is reached
  (\<open>count \<ge> 2\<close> and neither early return), it ends with \<open>i + 1 \<le> count - 1\<close>; and every
  interpolation divisor \<open>wavelengths[i+1] - wavelengths[i]\<close> with \<open>i + 1 < count\<close> is
  strictly positive.\<close>

theorem averageSamples_in_bounds_and_total:
  assumes "1 \<le> count" "length wavelengths = count" "length values = count"
    and "sorted_wrt (<) wavelengths"
    and "lBegin < lEnd"
  shows "(\<exists>r. averageSamples wavelengths values count lBegin lEnd = Inr r)
       \<and> (2 \<le> count \<and> wavelengths ! 0 < lEnd \<and> lBegin < wavelengths ! (count - 1) \<longrightarrow>
            (\<exists>i. advance wavelengths lBegin 0 = Inr i \<and> i + 1 \<le> count - 1))
       \<and> (\<forall>i. i + 1 < count \<longrightarrow> 0 < wavelengths ! (i + 1) - wavelengths ! i)"
proof (intro conjI allI impI)
  show "\<exists>r. averageSamples wavelengths values count lBegin lEnd = Inr r"
    using assms by (rule averageSamples_returns)
next
  assume "2 \<le> count \<and> wavelengths ! 0 < lEnd \<and> lBegin < wavelengths ! (count - 1)"
  then obtain k where "advance wavelengths lBegin 0 = Inr k" "k + 1 < length wavelengths"
    using advance_stops [of 0 wavelengths lBegin] assms by auto
  then show "\<exists>i. advance wavelengths lBegin 0 = Inr i \<and> i + 1 \<le> count - 1"
    using assms by auto
next
  fix i assume "i + 1 < count"
  then show "0 < wavelengths ! (i + 1) - wavelengths ! i"
    using assms increasing_nth [of wavelengths i "i + 1"] by simp
qed

theorem averageSamples_in_bounds_and_total_witness:
  "(\<exists>r. averageSamples [1, 2, 4] [10, 20, 0] 3 3 5 = Inr r)
   \<and> (\<exists>i. advance [1, 2, 4] 3 0 = Inr i \<and> i + 1 \<le> 3 - 1)
   \<and> 0 < [1, 2, 4 :: real] ! (1 + 1) - [1, 2, 4] ! 1"
  using averageSamples_in_bounds_and_total [of 3 "[1, 2, 4]" "[10, 20, 0]" 3 5]
  by simp

subsection \<open>fromSamples\<close>



text \<open>C7: for a table with strictly increasing wavelengths whose values all equal
  \<open>v\<close> and whose covered range contains \<open>[WavelengthBegin, WavelengthEnd] = [400, 700]\<close>,
  \<open>fromSamples\<close> returns the spectrum whose \<open>N\<close> bins all equal \<open>v\<close>.\<close>

theorem fromSamples_constant_table:
  assumes "1 \<le> count" "length wavelengths = count" "values = replicate count v"
    and "sorted_wrt (<) wavelengths"
    and "wavelengths ! 0 \<le> real WavelengthBegin"
    and "real WavelengthEnd \<le> wavelengths ! (count - 1)"
  shows "fromSamples wavelengths values count = Inr (replicate SampleCount v)"
  using assms fromSamples_constant [of count wavelengths v] by simp

theorem fromSamples_constant_table_witness:
  "fromSamples [300, 500, 800] [3, 3, 3] 3 = Inr (replicate SampleCount 3)"
  using fromSamples_constant_table [of 3 "[300, 500, 800]" "[3, 3, 3]" 3]
  by (simp add: WavelengthBegin_def WavelengthEnd_def numeral_3_eq_3)

subsection \<open>The colour-matching singletons, toXYZ and toRGB\<close>

text \<open>C9: \<open>yIntegral\<close> returns the plain sum of the 471 raw entries of \<^verbatim>\<open>CIE::y\<close>: no
  division by the number of entries, and no use of the resampled spectrum held by the
  static of \<^verbatim>\<open>Y()\<close>, whatever that static holds. The call leaves the value in its
  static, and a further call returns the same value and leaves the statics as they are.
  The invariant holds again after the call, so every later call is covered as well.\<close>

theorem yIntegral_is_cached_plain_sum:
  assumes "length (CIE_y cie) = sampleCount" "statics_ok cie st"
  shows "\<exists>st'. yIntegral cie st = Inr (sum_list (CIE_y cie), st')
           \<and> statics_ok cie st'
           \<and> yIntegral_static st' = Some (sum_list (CIE_y cie))
           \<and> yIntegral cie st' = Inr (sum_list (CIE_y cie), st')
           \<and> sum_list (CIE_y cie) = (\<Sum>i<471. CIE_y cie ! i)
           \<and> (\<forall>resampled. \<exists>st''. yIntegral cie (st\<lparr>Y_static := resampled\<rparr>)
                                   = Inr (sum_list (CIE_y cie), st''))"
proof -
  let ?st' = "st\<lparr>yIntegral_static := Some (sum_list (CIE_y cie))\<rparr>"
  have acq: "acquireIntegral cie = Inr (sum_list (CIE_y cie))"
    using assms(1) by (rule acquireIntegral_sum)
  have first: "yIntegral cie st = Inr (sum_list (CIE_y cie), ?st')" and ok: "statics_ok cie ?st'"
    using yIntegral_call [OF assms(2) acq] by simp_all
  have again: "yIntegral cie ?st' = Inr (sum_list (CIE_y cie), ?st')"
    by (simp add: yIntegral_def)
  have "sum_list (CIE_y cie) = (\<Sum>i<471. CIE_y cie ! i)"
    using assms(1) by (simp add: sum_list_sum_nth sampleCount_def lessThan_atLeast0)
  moreover have "\<exists>st''. yIntegral cie (st\<lparr>Y_static := resampled\<rparr>)
                       = Inr (sum_list (CIE_y cie), st'')" for resampled
    using assms(2) acq by (auto simp: yIntegral_def statics_ok_def split: option.splits)
  ultimately show ?thesis
    using first ok again by (intro exI [of _ ?st']) simp
qed

theorem yIntegral_is_cached_plain_sum_witness:
  "\<exists>st'. yIntegral example_CIE statics_init = Inr (471, st')
     \<and> yIntegral example_CIE st' = Inr (471, st')"
proof -
  have "length (CIE_y example_CIE) = sampleCount"
    by (simp add: example_CIE_def)
  moreover have "sum_list (CIE_y example_CIE) = 471"
    by (simp add: example_CIE_def sum_list_replicate) (simp add: sampleCount_def)
  ultimately show ?thesis
    using yIntegral_is_cached_plain_sum [of example_CIE statics_init] statics_ok_init
    by auto
qed

text \<open>C3: for a spectrum \<open>s\<close> of \<open>N\<close> bins, \<open>toXYZ\<close> returns the three sums
  \<open>sum_i s[i] * Xbar[i]\<close>, \<open>sum_i s[i] * Ybar[i]\<close>, \<open>sum_i s[i] * Zbar[i]\<close>, each multiplied by
  the scale \<open>(WavelengthEnd - WavelengthBegin) / (N * YIntegral)\<close>; \<open>Xbar\<close>, \<open>Ybar\<close>, \<open>Zbar\<close>
  and \<open>YIntegral\<close> are what \<^verbatim>\<open>X()\<close>, \<^verbatim>\<open>Y()\<close>, \<^verbatim>\<open>Z()\<close> and \<^verbatim>\<open>yIntegral()\<close> return from their
  statics after the call. In particular \<open>toXYZ\<close> of the all-zero spectrum is \<open>(0, 0, 0)\<close>.
  The call leaves the statics in a state that satisfies the invariant again.\<close>

theorem toXYZ_weighted_sums:
  assumes "CIE_wellformed cie" "statics_ok cie st" "length samples = SampleCount"
  shows "\<exists>sX sY sZ yi st'.
           X cie st' = Inr (sX, st') \<and> Y cie st' = Inr (sY, st') \<and> Z cie st' = Inr (sZ, st')
         \<and> yIntegral cie st' = Inr (yi, st')
         \<and> toXYZ cie st samples
             = Inr (Float3
                     ((\<Sum>i<SampleCount. samples ! i * sX ! i)
                        * ((real WavelengthEnd - real WavelengthBegin) / (real SampleCount * yi)))
                     ((\<Sum>i<SampleCount. samples ! i * sY ! i)
                        * ((real WavelengthEnd - real WavelengthBegin) / (real SampleCount * yi)))
                     ((\<Sum>i<SampleCount. samples ! i * sZ ! i)
                        * ((real WavelengthEnd - real WavelengthBegin) / (real SampleCount * yi))),
                    st')
         \<and> toXYZ cie st (replicate SampleCount 0) = Inr (Float3 0 0 0, st')
         \<and> statics_ok cie st'"
proof -
  obtain sX sY sZ yi where *:
    "statics_ok cie (statics_filled st sX sY sZ yi)"
    "X cie (statics_filled st sX sY sZ yi) = Inr (sX, statics_filled st sX sY sZ yi)"
    "Y cie (statics_filled st sX sY sZ yi) = Inr (sY, statics_filled st sX sY sZ yi)"
    "Z cie (statics_filled st sX sY sZ yi) = Inr (sZ, statics_filled st sX sY sZ yi)"
    "yIntegral cie (statics_filled st sX sY sZ yi) = Inr (yi, statics_filled st sX sY sZ yi)"
    "\<And>s. length s = SampleCount \<Longrightarrow>
       toXYZ cie st s
       = Inr (Float3
               (weighted_sum s sX
                  * ((real WavelengthEnd - real WavelengthBegin) / (real SampleCount * yi)))
               (weighted_sum s sY
                  * ((real WavelengthEnd - real WavelengthBegin) / (real SampleCount * yi)))
               (weighted_sum s sZ
                  * ((real WavelengthEnd - real WavelengthBegin) / (real SampleCount * yi))),
              statics_filled st sX sY sZ yi)"
    using toXYZ_total [OF assms(1,2)] by metis
  have "toXYZ cie st (replicate SampleCount 0)
        = Inr (Float3 0 0 0, statics_filled st sX sY sZ yi)"
    using *(6) [of "replicate SampleCount 0"] by (simp add: weighted_sum_zero)
  then show ?thesis
    using * assms(3) unfolding weighted_sum_def by blast
qed

theorem toXYZ_weighted_sums_witness:
  "\<exists>yi st'. yIntegral example_CIE st' = Inr (yi, st')
     \<and> toXYZ example_CIE statics_init (replicate SampleCount 0) = Inr (Float3 0 0 0, st')"
  using toXYZ_weighted_sums [OF example_CIE_wellformed statics_ok_init,
      of "replicate SampleCount 0"]
  by auto

text \<open>C8: \<open>toRGB\<close> is linear: on the spectrum with bins \<open>a * s1[i] + b * s2[i]\<close> it
  returns \<open>a * toRGB(s1) + b * toRGB(s2)\<close>, component by component. It is \<open>toXYZ\<close>
  followed by the fixed matrix with rows \<open>(3.240479, -1.537150, -0.498535)\<close>,
  \<open>(-0.969256, 1.875991, 0.041556)\<close>, \<open>(0.055648, -0.204043, 1.057311)\<close>, and nothing is
  clamped. The three calls start from the same statics \<open>st\<close> and end in the same
  statics \<open>st'\<close>, which satisfy the invariant again.\<close>

theorem toRGB_linear:
  assumes "CIE_wellformed cie" "statics_ok cie st"
    and "length s1 = SampleCount" "length s2 = SampleCount"
  shows "\<exists>rgb1 rgb2 xyz1 st'.
           toRGB cie st s1 = Inr (rgb1, st') \<and> toRGB cie st s2 = Inr (rgb2, st')
         \<and> toRGB cie st (map2 (\<lambda>u v. a * u + b * v) s1 s2)
             = Inr (Float3 (a * Float3_a rgb1 + b * Float3_a rgb2)
                           (a * Float3_b rgb1 + b * Float3_b rgb2)
                           (a * Float3_c rgb1 + b * Float3_c rgb2), st')
         \<and> toXYZ cie st s1 = Inr (xyz1, st')
         \<and> rgb1 = Float3
               (3.240479 * Float3_a xyz1 - 1.537150 * Float3_b xyz1 - 0.498535 * Float3_c xyz1)
               (- 0.969256 * Float3_a xyz1 + 1.875991 * Float3_b xyz1 + 0.041556 * Float3_c xyz1)
               (0.055648 * Float3_a xyz1 - 0.204043 * Float3_b xyz1 + 1.057311 * Float3_c xyz1)
         \<and> statics_ok cie st'"
proof -
  obtain sX sY sZ yi where ok: "statics_ok cie (statics_filled st sX sY sZ yi)" and xyz:
    "\<And>s. length s = SampleCount \<Longrightarrow>
       toXYZ cie st s
       = Inr (Float3
               (weighted_sum s sX
                  * ((real WavelengthEnd - real WavelengthBegin) / (real SampleCount * yi)))
               (weighted_sum s sY
                  * ((real WavelengthEnd - real WavelengthBegin) / (real SampleCount * yi)))
               (weighted_sum s sZ
                  * ((real WavelengthEnd - real WavelengthBegin) / (real SampleCount * yi))),
              statics_filled st sX sY sZ yi)"
    using toXYZ_total [OF assms(1,2)] by metis
  define k where "k = (real WavelengthEnd - real WavelengthBegin) / (real SampleCount * yi)"
  define mix where "mix = map2 (\<lambda>u v. a * u + b * v) s1 s2"
  have len: "length mix = SampleCount"
    using assms(3,4) by (simp add: mix_def)
  have lin: "weighted_sum mix w = a * weighted_sum s1 w + b * weighted_sum s2 w" for w
    unfolding mix_def using assms(3,4) by (rule weighted_sum_linear)
  note xyz_k = xyz [folded k_def]
  note rgb = toRGB_of_toXYZ [OF xyz_k [OF assms(3)]] toRGB_of_toXYZ [OF xyz_k [OF assms(4)]]
    toRGB_of_toXYZ [OF xyz_k [OF len]]
  have scaled: "(a * p + b * q) * k = a * (p * k) + b * (q * k)" for p q
    by (simp add: algebra_simps)
  have "toRGB cie st mix
        = Inr (Float3 (a * Float3_a (fst (projr (toRGB cie st s1)))
                         + b * Float3_a (fst (projr (toRGB cie st s2))))
                      (a * Float3_b (fst (projr (toRGB cie st s1)))
                         + b * Float3_b (fst (projr (toRGB cie st s2))))
                      (a * Float3_c (fst (projr (toRGB cie st s1)))
                         + b * Float3_c (fst (projr (toRGB cie st s2)))),
               statics_filled st sX sY sZ yi)"
    unfolding rgb
    by (simp add: lin scaled) (simp add: algebra_simps add_divide_distrib diff_divide_distrib)
  then show ?thesis
    unfolding mix_def using rgb(1,2) xyz_k [OF assms(3)] ok by auto
qed

theorem toRGB_linear_witness:
  "\<exists>rgb1 rgb2 st'.
     toRGB example_CIE statics_init (replicate SampleCount 1) = Inr (rgb1, st')
   \<and> toRGB example_CIE statics_init (replicate SampleCount 0) = Inr (rgb2, st')
   \<and> toRGB example_CIE statics_init
        (map2 (\<lambda>u v. 2 * u + 3 * v) (replicate SampleCount 1) (replicate SampleCount 0))
       = Inr (Float3 (2 * Float3_a rgb1 + 3 * Float3_a rgb2)
                     (2 * Float3_b rgb1 + 3 * Float3_b rgb2)
                     (2 * Float3_c rgb1 + 3 * Float3_c rgb2), st')"
  using toRGB_linear [OF example_CIE_wellformed statics_ok_init,
      of "replicate SampleCount 1" "replicate SampleCount 0" 2 3]
  by auto

section \<open>Further properties\<close>

text \<open>X1: \<open>fromSamples\<close> stops at its assertion when two consecutive wavelengths of the
  table are not strictly increasing.\<close>

theorem fromSamples_rejects_unsorted:
  assumes "length wavelengths = count" "i + 1 < count"
    and "\<not> wavelengths ! i < wavelengths ! (i + 1)"
  shows "fromSamples wavelengths values count = Inl AssertionFailed"
  using assert_increasing_fails [OF assms, of 0] by (simp add: fromSamples_def)

theorem fromSamples_rejects_unsorted_witness:
  "fromSamples [400, 700, 700] [1, 2, 3] 3 = Inl AssertionFailed"
  using fromSamples_rejects_unsorted [of "[400, 700, 700]" 3 1 "[1, 2, 3]"] by simp

text \<open>X2: \<open>averageSamples\<close> asserts \<open>count > 0\<close>: with \<open>count = 0\<close> the call stops at
  the assertion, before any read.\<close>

theorem averageSamples_asserts_count:
  "averageSamples wavelengths values 0 lBegin lEnd = Inl AssertionFailed"
  by (simp add: averageSamples_def)

text \<open>X3: on a table of constant value \<open>v\<close>, a query interval that overlaps the covered
  range gets \<open>v\<close> times the length of the overlap, divided by the full width: less than
  \<open>v\<close> in absolute value as soon as the interval sticks out of the covered range.\<close>

theorem averageSamples_constant_partial_cover:
  assumes "2 \<le> count" "length wavelengths = count" "sorted_wrt (<) wavelengths"
    and "lBegin < lEnd"
    and "wavelengths ! 0 < lEnd" "lBegin < wavelengths ! (count - 1)"
  shows "averageSamples wavelengths (replicate count v) count lBegin lEnd
         = Inr (v * (min lEnd (wavelengths ! (count - 1)) - max lBegin (wavelengths ! 0))
                / (lEnd - lBegin))"
proof -
  have "wavelengths ! 0 < wavelengths ! (count - 1)"
    using assms by (intro increasing_nth) auto
  then have "max lBegin (wavelengths ! 0) \<le> min lEnd (wavelengths ! (count - 1))"
    using assms by simp
  then have "piecewise_integral wavelengths (replicate count v) count
               (max lBegin (wavelengths ! 0)) (min lEnd (wavelengths ! (count - 1)))
             = v * (min lEnd (wavelengths ! (count - 1)) - max lBegin (wavelengths ! 0))"
    using assms by (intro piecewise_integral_constant) auto
  then show ?thesis
    using assms averageSamples_integral [of count wavelengths "replicate count v" lBegin lEnd]
      piecewise_integral_clip [of wavelengths count "replicate count v" lBegin lEnd]
    by simp
qed

theorem averageSamples_constant_partial_cover_witness:
  "averageSamples [400, 700] [1, 1] 2 395 405 = Inr (1 / 2)"
  using averageSamples_constant_partial_cover [of 2 "[400, 700]" 395 405 1]
  by (simp add: numeral_2_eq_2)

text \<open>X4: the bounds that \<open>fromSamples\<close> computes for its bins, in single precision:
  bound \<open>i\<close> is \<open>400 + 5 * i\<close>, except bound 5 and bound 59, which lie \<open>2^-15\<close> and
  \<open>2^-14\<close> above.\<close>

theorem fromSamples_bin_bounds:
  assumes "i \<le> SampleCount"
  shows "lerp (div32 (real i) (real SampleCount))
         = 400 + 5 * real i + (if i = 5 then 1 / 2 ^ 15 else if i = 59 then 1 / 2 ^ 14 else 0)"
  using assms bin_bound_closed [of i]
  by (simp add: bin_bound_def SampleCount_def SpectralSampleCount_def)

theorem fromSamples_bin_bounds_witness:
  "lerp (div32 (real 59) (real SampleCount)) = 695 + 1 / 2 ^ 14"
  using fromSamples_bin_bounds [of 59] by (simp add: SampleCount_def SpectralSampleCount_def)

end
